theory Spec2Isabelle
  imports Main "HOL-Library.Word"
begin

section \<open>JavaScript strings\<close>

text \<open>
  A JavaScript string is a sequence of UTF-16 code units; \<open>length\<close>, \<open>substring\<close>,
  \<open>trim\<close> and the regular expressions of the source all work on code units.
\<close>

type_synonym jschar = "16 word"
type_synonym jsstring = "jschar list"

text \<open>The code units of an ASCII literal of the source.\<close>

definition js :: "string \<Rightarrow> jsstring" where
  "js s = map (\<lambda>c. of_nat (of_char c)) s"

text \<open>
  The class \<open>\s\<close> of a regular expression and the characters removed by
  \<open>String.prototype.trim\<close> are the same set: WhiteSpace and LineTerminator of ECMAScript.
\<close>

definition isWhiteSpace :: "jschar \<Rightarrow> bool" where
  "isWhiteSpace c =
     (c = 0x0009 \<or> c = 0x000A \<or> c = 0x000B \<or> c = 0x000C \<or> c = 0x000D \<or> c = 0x0020
      \<or> c = 0x00A0 \<or> c = 0x1680 \<or> (0x2000 \<le> c \<and> c \<le> 0x200A)
      \<or> c = 0x2028 \<or> c = 0x2029 \<or> c = 0x202F \<or> c = 0x205F \<or> c = 0x3000 \<or> c = 0xFEFF)"

text \<open>The class \<open>\d\<close> (without the unicode flag): the ASCII digits.\<close>

definition isDigit :: "jschar \<Rightarrow> bool" where
  "isDigit c = (0x0030 \<le> c \<and> c \<le> 0x0039)"

definition LF :: jschar where
  "LF = 0x000A"

definition isSentencePunct :: "jschar \<Rightarrow> bool" where
  "isSentencePunct c = (c = 0x002E \<or> c = 0x0021 \<or> c = 0x003F)"

text \<open>\<open>s.trim()\<close>\<close>

definition trim :: "jsstring \<Rightarrow> jsstring" where
  "trim s = rev (dropWhile isWhiteSpace (rev (dropWhile isWhiteSpace s)))"

text \<open>\<open>s.substring(0, n)\<close> and \<open>s.substring(n)\<close> for a non-negative integer \<open>n\<close>.\<close>

definition substringTo :: "jsstring \<Rightarrow> nat \<Rightarrow> jsstring" where
  "substringTo s n = take n s"

definition substringFrom :: "jsstring \<Rightarrow> nat \<Rightarrow> jsstring" where
  "substringFrom s n = drop n s"

text \<open>\<open>s.lastIndexOf(c)\<close> for a single character: the last index holding it, or -1.\<close>

fun lastIndexFrom :: "jschar \<Rightarrow> jsstring \<Rightarrow> int \<Rightarrow> int \<Rightarrow> int" where
  "lastIndexFrom c [] i found = found"
| "lastIndexFrom c (x # xs) i found = lastIndexFrom c xs (i + 1) (if x = c then i else found)"

definition lastIndexOf :: "jsstring \<Rightarrow> jschar \<Rightarrow> int" where
  "lastIndexOf s c = lastIndexFrom c s 0 (- 1)"

text \<open>
  Template rendering of a number. Every number rendered by the splitter is a
  non-negative integer (rendered in decimal) or \<open>Infinity\<close>.
\<close>

datatype jsnumber = Finite nat | Infinity

fun digitsOf :: "nat \<Rightarrow> jsstring" where
  "digitsOf n = (if n < 10 then [0x0030 + of_nat n]
                 else digitsOf (n div 10) @ [0x0030 + of_nat (n mod 10)])"

declare digitsOf.simps [simp del]

fun numberToString :: "jsnumber \<Rightarrow> jsstring" where
  "numberToString (Finite n) = digitsOf n"
| "numberToString Infinity = js ''Infinity''"

text \<open>
  \<open>Math.ceil(a / b)\<close> for lengths \<open>a > 0\<close> and \<open>b \<ge> 0\<close>: division by zero gives Infinity, and
  for lengths below \<open>2^53\<close> the ceiling of the double quotient is the integer ceiling.
\<close>

definition ceilDiv :: "nat \<Rightarrow> nat \<Rightarrow> jsnumber" where
  "ceilDiv a b = (if b = 0 then Infinity else Finite ((a + b - 1) div b))"

fun greaterThanOne :: "jsnumber \<Rightarrow> bool" where
  "greaterThanOne (Finite n) = (1 < n)"
| "greaterThanOne Infinity = True"

section \<open>messageSplitter.js\<close>

definition WHATSAPP_MESSAGE_MAX_LENGTH :: nat where
  "WHATSAPP_MESSAGE_MAX_LENGTH = 4096"

subsection \<open>The pattern \<open>/[.!?]\s+|\n\n+/\<close>\<close>

text \<open>
  A match of the pattern anchored at the head of the string: the first alternative is a
  sentence mark followed by a greedy run of white space, the second a greedy run of two
  or more line feeds. The result is the length of the match.
\<close>

definition sentenceEndAt :: "jsstring \<Rightarrow> nat option" where
  "sentenceEndAt s =
     (case s of
        [] \<Rightarrow> None
      | c # rest \<Rightarrow>
          if isSentencePunct c \<and> takeWhile isWhiteSpace rest \<noteq> []
          then Some (1 + length (takeWhile isWhiteSpace rest))
          else if c = LF \<and> takeWhile (\<lambda>x. x = LF) rest \<noteq> []
          then Some (1 + length (takeWhile (\<lambda>x. x = LF) rest))
          else None)"

text \<open>
  \<open>searchArea.match(sentenceEndPattern)\<close> without the global flag: the leftmost match,
  as \<open>(match.index, match[0].length)\<close>, or \<open>None\<close> for \<open>null\<close>.
\<close>

fun sentenceEndMatch :: "jsstring \<Rightarrow> (nat \<times> nat) option" where
  "sentenceEndMatch [] = None"
| "sentenceEndMatch (c # cs) =
     (case sentenceEndAt (c # cs) of
        Some len \<Rightarrow> Some (0, len)
      | None \<Rightarrow> (case sentenceEndMatch cs of
                   None \<Rightarrow> None
                 | Some (idx, len) \<Rightarrow> Some (Suc idx, len)))"

subsection \<open>The cut of one iteration\<close>

text \<open>
  Lines 37 to 61 of \<open>splitMessage\<close>: from \<open>chunk = remaining.substring(0, maxLength)\<close> to
  the value of \<open>splitIndex\<close>. The test \<open>lineBreakIndex > maxLength * 0.8\<close> is written with
  integers as \<open>5 * lineBreakIndex > 4 * maxLength\<close>: for every length a string can have,
  the double \<open>maxLength * 0.8\<close> is the exact product when that is an integer and lies
  strictly between the same two integers otherwise.
\<close>

definition findSplitIndex :: "jsstring \<Rightarrow> nat \<Rightarrow> nat" where
  "findSplitIndex chunk maxLength =
     (let lookbackWindow = min 200 (length chunk);
          searchArea = substringFrom chunk (length chunk - lookbackWindow)
      in case sentenceEndMatch searchArea of
           Some (idx, len) \<Rightarrow> length chunk - lookbackWindow + idx + len
         | None \<Rightarrow>
             (let lineBreakIndex = lastIndexOf chunk LF
              in if 5 * lineBreakIndex > 4 * int maxLength
                 then nat (lineBreakIndex + 1)
                 else maxLength))"

definition splitIndexOf :: "jsstring \<Rightarrow> nat \<Rightarrow> nat" where
  "splitIndexOf remaining maxLength = findSplitIndex (substringTo remaining maxLength) maxLength"

text \<open>The header \<open>`[${chunkNumber}/${totalChunks}]\n\n`\<close> of \<open>splitMessage\<close>.\<close>

definition splitHeader :: "nat \<Rightarrow> jsnumber \<Rightarrow> jsstring" where
  "splitHeader chunkNumber totalChunks =
     js ''['' @ digitsOf chunkNumber @ js ''/'' @ numberToString totalChunks @ js '']'' @ [LF, LF]"

text \<open>Lines 63 to 72: the chunk pushed by one iteration.\<close>

definition renderChunk :: "nat \<Rightarrow> nat \<Rightarrow> jsstring list \<Rightarrow> jsstring \<Rightarrow> jsstring" where
  "renderChunk messageLength maxLength chunks chunkText =
     (let totalChunks = ceilDiv messageLength maxLength;
          chunkNumber = length chunks + 1
      in if greaterThanOne totalChunks
         then splitHeader chunkNumber totalChunks @ chunkText
         else chunkText)"

subsection \<open>The loop of \<open>splitMessage\<close>\<close>

text \<open>
  Lines 29 to 76, one call per iteration; \<open>messageLength\<close> is \<open>message.length\<close>. The
  result \<open>None\<close> stands for a loop that never ends: with \<open>maxLength = 0\<close> the cut is at 0,
  so an iteration that starts from trimmed text leaves \<open>remaining\<close> as it was and only
  pushes one more chunk.
\<close>

lemma length_dropWhile_less:
  "dropWhile P s \<noteq> s \<Longrightarrow> length (dropWhile P s) < length s"
proof (cases s)
  case Nil
  assume "dropWhile P s \<noteq> s"
  with Nil show ?thesis by simp
next
  case (Cons x xs)
  assume "dropWhile P s \<noteq> s"
  with Cons have "dropWhile P s = dropWhile P xs" by (simp split: if_splits)
  then show ?thesis using Cons length_dropWhile_le [of P xs] by simp
qed

lemma length_trim_le: "length (trim s) \<le> length s"
proof -
  have "length (trim s) \<le> length (dropWhile isWhiteSpace s)"
    using length_dropWhile_le [of isWhiteSpace "rev (dropWhile isWhiteSpace s)"]
    by (simp add: trim_def)
  also have "\<dots> \<le> length s" by (rule length_dropWhile_le)
  finally show ?thesis .
qed

lemma length_trim_less: "trim s \<noteq> s \<Longrightarrow> length (trim s) < length s"
proof (cases "dropWhile isWhiteSpace s = s")
  case False
  have "length (trim s) \<le> length (dropWhile isWhiteSpace s)"
    using length_dropWhile_le [of isWhiteSpace "rev (dropWhile isWhiteSpace s)"]
    by (simp add: trim_def)
  also have "\<dots> < length s" using False by (rule length_dropWhile_less)
  finally show ?thesis .
next
  case True
  assume "trim s \<noteq> s"
  with True have "dropWhile isWhiteSpace (rev s) \<noteq> rev s"
    by (auto simp: trim_def)
  then have "length (dropWhile isWhiteSpace (rev s)) < length (rev s)"
    by (rule length_dropWhile_less)
  with True show ?thesis by (simp add: trim_def)
qed

lemma sentenceEndAt_pos: "sentenceEndAt s = Some len \<Longrightarrow> 2 \<le> len"
  by (cases s) (auto simp: sentenceEndAt_def Suc_le_eq split: if_splits)

lemma sentenceEndMatch_pos: "sentenceEndMatch s = Some (idx, len) \<Longrightarrow> 2 \<le> len"
  by (induction s arbitrary: idx)
     (auto split: option.splits dest: sentenceEndAt_pos)

lemma findSplitIndex_pos: "0 < maxLength \<Longrightarrow> 0 < findSplitIndex chunk maxLength"
  by (auto simp: findSplitIndex_def Let_def split: option.splits dest: sentenceEndMatch_pos)

function splitLoop :: "nat \<Rightarrow> nat \<Rightarrow> jsstring \<Rightarrow> jsstring list \<Rightarrow> jsstring list option" where
  "splitLoop messageLength maxLength remaining chunks =
     (if length remaining = 0 then Some chunks
      else if length remaining \<le> maxLength then Some (chunks @ [remaining])
      else if maxLength = 0 \<and> trim remaining = remaining then None
      else splitLoop messageLength maxLength
             (trim (substringFrom remaining (splitIndexOf remaining maxLength)))
             (chunks @ [renderChunk messageLength maxLength chunks
                          (trim (substringTo remaining (splitIndexOf remaining maxLength)))]))"
  by pat_completeness auto
termination
proof (relation "measure (\<lambda>(messageLength, maxLength, remaining, chunks). length remaining)")
  show "wf (measure (\<lambda>(messageLength, maxLength, remaining, chunks). length remaining))"
    by simp
next
  fix messageLength maxLength :: nat and remaining :: jsstring and chunks :: "jsstring list"
  assume nonempty: "length remaining \<noteq> 0"
    and long: "\<not> length remaining \<le> maxLength"
    and live: "\<not> (maxLength = 0 \<and> trim remaining = remaining)"
  let ?k = "splitIndexOf remaining maxLength"
  have "length (trim (substringFrom remaining ?k)) < length remaining"
  proof (cases "maxLength = 0")
    case True
    then have "?k = 0"
      by (simp add: splitIndexOf_def substringTo_def findSplitIndex_def substringFrom_def
            lastIndexOf_def)
    moreover have "trim remaining \<noteq> remaining" using live True by simp
    ultimately show ?thesis by (simp add: substringFrom_def length_trim_less)
  next
    case False
    then have "0 < ?k" by (simp add: splitIndexOf_def findSplitIndex_pos)
    moreover have "length (trim (drop ?k remaining)) \<le> length remaining - ?k"
      using length_trim_le [of "drop ?k remaining"] by simp
    ultimately show ?thesis using nonempty unfolding substringFrom_def by linarith
  qed
  then show "((messageLength, maxLength,
               trim (substringFrom remaining ?k),
               chunks @ [renderChunk messageLength maxLength chunks (trim (substringTo remaining ?k))]),
              (messageLength, maxLength, remaining, chunks))
             \<in> measure (\<lambda>(messageLength, maxLength, remaining, chunks). length remaining)"
    by simp
qed

declare splitLoop.simps [simp del]

text \<open>
  \<open>splitMessage(message, maxLength)\<close> for a string \<open>message\<close> and a non-negative integer
  \<open>maxLength\<close> (the one caller passes the default 4096): the guard \<open>!message\<close> holds for the
  empty string only.
\<close>

definition splitMessage :: "jsstring \<Rightarrow> nat \<Rightarrow> jsstring list option" where
  "splitMessage message maxLength =
     (if message = [] then Some []
      else if length message \<le> maxLength then Some [message]
      else splitLoop (length message) maxLength message [])"

subsection \<open>\<open>splitMessageWithIndicators\<close>\<close>

definition stripPrefix :: "jsstring \<Rightarrow> jsstring \<Rightarrow> jsstring option" where
  "stripPrefix p s = (if take (length p) s = p then Some (drop (length p) s) else None)"

text \<open>
  \<open>chunk.replace(/^\[\d+\/\d+\]\n\n/, '')\<close>: each \<open>\d+\<close> takes the whole run of digits (a
  shorter run would be followed by a digit, never by the next literal of the pattern).
\<close>

definition removeIndicator :: "jsstring \<Rightarrow> jsstring" where
  "removeIndicator chunk =
     (case stripPrefix (js ''['') chunk of
        None \<Rightarrow> chunk
      | Some r1 \<Rightarrow>
          if takeWhile isDigit r1 = [] then chunk
          else (case stripPrefix (js ''/'') (dropWhile isDigit r1) of
                  None \<Rightarrow> chunk
                | Some r2 \<Rightarrow>
                    if takeWhile isDigit r2 = [] then chunk
                    else (case stripPrefix (js '']'' @ [LF, LF]) (dropWhile isDigit r2) of
                            None \<Rightarrow> chunk
                          | Some rest \<Rightarrow> rest)))"

text \<open>The header \<open>`[Part ${index + 1}/${chunks.length}]\n\n`\<close>.\<close>

definition partHeader :: "nat \<Rightarrow> nat \<Rightarrow> jsstring" where
  "partHeader partNumber partCount =
     js ''[Part '' @ digitsOf partNumber @ js ''/'' @ digitsOf partCount @ js '']'' @ [LF, LF]"

text \<open>The callback of \<open>chunks.map\<close>, lines 94 to 98.\<close>

definition withIndicator :: "nat \<Rightarrow> nat \<times> jsstring \<Rightarrow> jsstring" where
  "withIndicator partCount ic =
     (case ic of (index, chunk) \<Rightarrow> partHeader (index + 1) partCount @ removeIndicator chunk)"

definition addIndicators :: "jsstring list \<Rightarrow> jsstring list" where
  "addIndicators chunks =
     (if length chunks \<le> 1 then chunks
      else map (withIndicator (length chunks)) (List.enumerate 0 chunks))"

definition splitMessageWithIndicators :: "jsstring \<Rightarrow> jsstring list option" where
  "splitMessageWithIndicators message =
     (case splitMessage message WHATSAPP_MESSAGE_MAX_LENGTH of
        None \<Rightarrow> None
      | Some chunks \<Rightarrow> Some (addIndicators chunks))"

section \<open>The HTTP boundary\<close>

text \<open>
  \<open>fetchWithRetry\<close> (module \<open>utils/retryWithTimeout\<close>) is the only way the services reach
  the network. Its awaited outcome is a rejection with an error or a response.
\<close>

datatype json =
    JNull
  | JBool bool
  | JNumber int
  | JString jsstring
  | JArray "json list"
  | JObject "(jsstring \<times> json) list"

record fetch_error =
  errorName :: jsstring
  errorCode :: "jsstring option"

text \<open>A response: \<open>jsonBody\<close> is \<open>None\<close> when \<open>response.json()\<close> rejects.\<close>

record response =
  status :: int
  jsonBody :: "json option"

definition ok :: "response \<Rightarrow> bool" where
  "ok r = (200 \<le> status r \<and> status r \<le> 299)"

datatype fetch_result = Rejected fetch_error | Resolved response

text \<open>Any JavaScript value: a string, or a value that is not a string.\<close>

datatype jsvalue = JSString jsstring | JSOther

text \<open>The third argument of \<open>fetchWithRetry\<close>; \<open>shouldRetry\<close> is optional.\<close>

record retry_options =
  timeoutMs :: nat
  maxRetries :: nat
  retryDelayMs :: nat
  shouldRetry :: "(fetch_error option \<Rightarrow> response option \<Rightarrow> bool) option"

datatype request =
    WhatsAppMessage jsstring jsstring jsstring jsvalue
  | HaiIndexerQuery jsstring jsstring

text \<open>
  What a run does to the outside world, in order: a call of \<open>fetchWithRetry\<close> with its
  outcome, or a timer of so many milliseconds.
\<close>

datatype event = Fetch request fetch_result | Sleep nat

text \<open>
  The module \<open>utils/retryWithTimeout\<close> is a parameter of the services: the outcome of a
  call may depend on the request, the options and everything that happened before.
\<close>

type_synonym fetcher = "request \<Rightarrow> retry_options \<Rightarrow> event list \<Rightarrow> fetch_result"

section \<open>whatsappService\<close>

record whatsapp_env =
  WHATSAPP_TOKEN :: "jsstring option"
  PHONE_NUMBER_ID :: "jsstring option"
  ENABLE_MESSAGE_SPLITTING :: bool
  API_TIMEOUT_MS :: nat
  API_MAX_RETRIES :: nat
  API_RETRY_DELAY_MS :: nat

text \<open>\<open>!v\<close> for an environment variable: undefined or the empty string.\<close>

definition unset :: "jsstring option \<Rightarrow> bool" where
  "unset v = (case v of None \<Rightarrow> True | Some s \<Rightarrow> s = [])"

definition WHATSAPP_API_URL :: "whatsapp_env \<Rightarrow> jsstring" where
  "WHATSAPP_API_URL env =
     js ''https://graph.facebook.com/v18.0/''
     @ (case PHONE_NUMBER_ID env of None \<Rightarrow> js ''undefined'' | Some p \<Rightarrow> p)
     @ js ''/messages''"

datatype send_error =
    CredentialsNotConfigured
  | NotANonEmptyString
  | LengthExceedsLimit nat
  | WhatsAppApiError int
  | FetchRejected fetch_error
  | InvalidJson

text \<open>
  \<open>validateMessageLength\<close>; the service declares its own
  \<open>WHATSAPP_MESSAGE_MAX_LENGTH = 4096\<close>, the same value as the splitter's.
\<close>

definition validateMessageLength :: "jsvalue \<Rightarrow> send_error + unit" where
  "validateMessageLength message =
     (case message of
        JSOther \<Rightarrow> Inl NotANonEmptyString
      | JSString s \<Rightarrow>
          if s = [] then Inl NotANonEmptyString
          else if length s > WHATSAPP_MESSAGE_MAX_LENGTH then Inl (LengthExceedsLimit (length s))
          else Inr ())"

text \<open>The \<open>shouldRetry\<close> callback of \<open>sendTextMessage\<close>, lines 77 to 86.\<close>

definition whatsappShouldRetry :: "fetch_error option \<Rightarrow> response option \<Rightarrow> bool" where
  "whatsappShouldRetry error resp =
     (case error of
        Some e \<Rightarrow>
          errorName e = js ''AbortError'' \<or> errorCode e = Some (js ''ECONNREFUSED'')
          \<or> errorCode e = Some (js ''ETIMEDOUT'')
      | None \<Rightarrow>
          (case resp of
             Some r \<Rightarrow> status r = 429 \<or> (status r \<ge> 500 \<and> status r < 600)
           | None \<Rightarrow> False))"

definition whatsappOptions :: "whatsapp_env \<Rightarrow> retry_options" where
  "whatsappOptions env =
     \<lparr> timeoutMs = API_TIMEOUT_MS env, maxRetries = API_MAX_RETRIES env,
       retryDelayMs = API_RETRY_DELAY_MS env, shouldRetry = Some whatsappShouldRetry \<rparr>"

text \<open>
  \<open>sendTextMessage\<close>: the state is the list of events so far. The \<open>catch\<close> block logs and
  rethrows, so every error leaves as it was thrown.
\<close>

definition sendTextMessage ::
  "fetcher \<Rightarrow> whatsapp_env \<Rightarrow> jsstring \<Rightarrow> jsvalue \<Rightarrow> event list \<Rightarrow> (send_error + unit) \<times> event list"
where
  "sendTextMessage fetchWithRetry env to message events =
     (if unset (WHATSAPP_TOKEN env) \<or> unset (PHONE_NUMBER_ID env)
      then (Inl CredentialsNotConfigured, events)
      else (case validateMessageLength message of
              Inl e \<Rightarrow> (Inl e, events)
            | Inr _ \<Rightarrow>
                (let req = WhatsAppMessage (WHATSAPP_API_URL env)
                             (case WHATSAPP_TOKEN env of None \<Rightarrow> [] | Some t \<Rightarrow> t) to message;
                     result = fetchWithRetry req (whatsappOptions env) events;
                     events' = events @ [Fetch req result]
                 in case result of
                      Rejected e \<Rightarrow> (Inl (FetchRejected e), events')
                    | Resolved r \<Rightarrow>
                        if \<not> ok r then (Inl (WhatsAppApiError (status r)), events')
                        else (case jsonBody r of
                                None \<Rightarrow> (Inl InvalidJson, events')
                              | Some data \<Rightarrow> (Inr (), events')))))"

definition DELAY_BETWEEN_CHUNKS_MS :: nat where
  "DELAY_BETWEEN_CHUNKS_MS = 500"

text \<open>The \<open>for\<close> loop of \<open>sendTextMessageWithSplitting\<close>, lines 126 to 133, from index \<open>i\<close>.\<close>

function sendChunks ::
  "fetcher \<Rightarrow> whatsapp_env \<Rightarrow> jsstring \<Rightarrow> jsstring list \<Rightarrow> nat \<Rightarrow> event list
   \<Rightarrow> (send_error + unit) \<times> event list"
where
  "sendChunks fetchWithRetry env to chunks i events =
     (if i < length chunks
      then (case sendTextMessage fetchWithRetry env to (JSString (chunks ! i)) events of
              (Inl e, events') \<Rightarrow> (Inl e, events')
            | (Inr _, events') \<Rightarrow>
                sendChunks fetchWithRetry env to chunks (i + 1)
                  (if i < length chunks - 1 then events' @ [Sleep DELAY_BETWEEN_CHUNKS_MS]
                   else events'))
      else (Inr (), events))"
  by pat_completeness auto
termination
  by (relation "measure (\<lambda>(fetchWithRetry, env, to, chunks, i, events). length chunks - i)") auto

declare sendChunks.simps [simp del]

text \<open>
  \<open>sendTextMessageWithSplitting\<close> for a string \<open>message\<close>; \<open>None\<close> when the splitter does
  not return.
\<close>

definition sendTextMessageWithSplitting ::
  "fetcher \<Rightarrow> whatsapp_env \<Rightarrow> jsstring \<Rightarrow> jsstring \<Rightarrow> event list
   \<Rightarrow> ((send_error + unit) \<times> event list) option"
where
  "sendTextMessageWithSplitting fetchWithRetry env to message events =
     (if \<not> ENABLE_MESSAGE_SPLITTING env \<or> length message \<le> WHATSAPP_MESSAGE_MAX_LENGTH
      then Some (sendTextMessage fetchWithRetry env to (JSString message) events)
      else (case splitMessageWithIndicators message of
              None \<Rightarrow> None
            | Some chunks \<Rightarrow>
                if length chunks = 1
                then Some (sendTextMessage fetchWithRetry env to (JSString (chunks ! 0)) events)
                else Some (sendChunks fetchWithRetry env to chunks 0 events)))"

section \<open>The circuit breaker\<close>








section \<open>haiindexerService\<close>

















section \<open>The resilient call wrapper\<close>

text \<open>
  Modelled from the spec: the module \<open>utils/retryWithTimeout\<close> is not among the source
  files; the definitions of this section follow section 4.1 of the specification. The
  \<open>k\<close>-th invocation of the operation (counted from 0) settles after some milliseconds
  with a rejection or a response.
\<close>

record CallPolicy =
  policyTimeoutMs :: nat
  policyMaxRetries :: nat
  policyRetryDelayMs :: nat
  policyShouldRetry :: "fetch_error option \<Rightarrow> response option \<Rightarrow> bool"

datatype wrapper_event = Invoked nat | Waited nat

definition TimeoutError :: fetch_error where
  "TimeoutError = \<lparr> errorName = js ''TimeoutError'', errorCode = None \<rparr>"

text \<open>
  Modelled from the spec: an operation that does not settle before the deadline is treated
  as a timeout failure.
\<close>

definition settle :: "CallPolicy \<Rightarrow> nat \<times> fetch_result \<Rightarrow> fetch_result" where
  "settle policy attempt =
     (case attempt of (elapsed, result) \<Rightarrow>
        if elapsed < policyTimeoutMs policy then result else Rejected TimeoutError)"

text \<open>Modelled from the spec: a failure is an error, or a response whose status is not a success.\<close>

definition isFailure :: "fetch_result \<Rightarrow> bool" where
  "isFailure result = (case result of Rejected e \<Rightarrow> True | Resolved r \<Rightarrow> \<not> ok r)"

definition consultShouldRetry :: "CallPolicy \<Rightarrow> fetch_result \<Rightarrow> bool" where
  "consultShouldRetry policy result =
     (case result of
        Rejected e \<Rightarrow> policyShouldRetry policy (Some e) None
      | Resolved r \<Rightarrow> policyShouldRetry policy None (Some r))"

text \<open>
  Modelled from the spec: on failure the wrapper consults \<open>shouldRetry\<close>; if it returns true
  and the attempt count is below \<open>maxRetries\<close> it waits \<open>retryDelayMs\<close> and invokes the
  operation again; otherwise the last outcome is the result.
\<close>

function retryLoop ::
  "(nat \<Rightarrow> nat \<times> fetch_result) \<Rightarrow> CallPolicy \<Rightarrow> nat \<Rightarrow> wrapper_event list
   \<Rightarrow> fetch_result \<times> wrapper_event list"
where
  "retryLoop operation policy attempt trace =
     (if isFailure (settle policy (operation attempt))
         \<and> consultShouldRetry policy (settle policy (operation attempt))
         \<and> attempt < policyMaxRetries policy
      then retryLoop operation policy (attempt + 1)
             (trace @ [Invoked attempt, Waited (policyRetryDelayMs policy)])
      else (settle policy (operation attempt), trace @ [Invoked attempt]))"
  by pat_completeness auto
termination
  by (relation "measure (\<lambda>(operation, policy, attempt, trace). policyMaxRetries policy - attempt)")
     auto

declare retryLoop.simps [simp del]

definition executeWithRetry ::
  "(nat \<Rightarrow> nat \<times> fetch_result) \<Rightarrow> CallPolicy \<Rightarrow> fetch_result \<times> wrapper_event list"
where
  "executeWithRetry operation policy = retryLoop operation policy 0 []"

section \<open>Observations and sample configurations\<close>

text \<open>How often a run of the wrapper invoked the operation, and how often it waited.\<close>

definition invocations :: "wrapper_event list \<Rightarrow> nat" where
  "invocations trace =
     length (filter (\<lambda>ev. case ev of Invoked k \<Rightarrow> True | Waited d \<Rightarrow> False) trace)"

definition waits :: "wrapper_event list \<Rightarrow> nat" where
  "waits trace =
     length (filter (\<lambda>ev. case ev of Invoked k \<Rightarrow> False | Waited d \<Rightarrow> True) trace)"

text \<open>
  The policy of \<open>sendTextMessage\<close> under the default configuration (15 s, 2 retries, 1 s),
  and the default configuration of both services.
\<close>

definition sendPolicy :: CallPolicy where
  "sendPolicy =
     \<lparr> policyTimeoutMs = 15000, policyMaxRetries = 2, policyRetryDelayMs = 1000,
       policyShouldRetry = whatsappShouldRetry \<rparr>"

definition defaultEnv :: whatsapp_env where
  "defaultEnv =
     \<lparr> WHATSAPP_TOKEN = Some (js ''token''), PHONE_NUMBER_ID = Some (js ''1001''),
       ENABLE_MESSAGE_SPLITTING = True, API_TIMEOUT_MS = 15000, API_MAX_RETRIES = 2,
       API_RETRY_DELAY_MS = 1000 \<rparr>"



text \<open>
  Sample networks: one that refuses every connection, one that answers every request, and
  one that answers the first request and fails with status 503 from then on.
\<close>

definition backendDown :: fetcher where
  "backendDown req opts events =
     Rejected \<lparr> errorName = js ''Error'', errorCode = Some (js ''ECONNREFUSED'') \<rparr>"

definition answering :: "int \<Rightarrow> fetcher" where
  "answering code req opts events = Resolved \<lparr> status = code, jsonBody = Some JNull \<rparr>"

definition answeringOnce :: fetcher where
  "answeringOnce req opts events =
     (if events = [] then Resolved \<lparr> status = 200, jsonBody = Some JNull \<rparr>
      else Resolved \<lparr> status = 503, jsonBody = None \<rparr>)"

text \<open>A sample answer of 5002 characters: two sentences, the first 4001 characters long.\<close>

definition twoSentences :: jsstring where
  "twoSentences = replicate 4000 0x61 @ [0x2E, 0x20] @ replicate 1000 0x62"

text \<open>
  Observations of a run of \<open>sendTextMessageWithSplitting\<close>: the request that carries a
  chunk, a call that ended with a successful send, a chunk the length check lets through,
  and the events of chunks sent one after the other, each followed by the delay.
\<close>

definition chunkRequest :: "whatsapp_env \<Rightarrow> jsstring \<Rightarrow> jsstring \<Rightarrow> request" where
  "chunkRequest env to chunk =
     WhatsAppMessage (WHATSAPP_API_URL env)
       (case WHATSAPP_TOKEN env of None \<Rightarrow> [] | Some t \<Rightarrow> t) to (JSString chunk)"

definition succeeded :: "fetch_result \<Rightarrow> bool" where
  "succeeded result = (case result of Rejected e \<Rightarrow> False | Resolved r \<Rightarrow> ok r \<and> jsonBody r \<noteq> None)"

definition delivered :: "whatsapp_env \<Rightarrow> jsstring \<Rightarrow> (jsstring \<times> fetch_result) list \<Rightarrow> event list" where
  "delivered env to sent =
     concat (map (\<lambda>(chunk, result).
                    [Fetch (chunkRequest env to chunk) result, Sleep DELAY_BETWEEN_CHUNKS_MS]) sent)"

definition accepted :: "jsstring \<Rightarrow> bool" where
  "accepted chunk = (chunk \<noteq> [] \<and> length chunk \<le> WHATSAPP_MESSAGE_MAX_LENGTH)"

text \<open>
  What stops a chunk before any request is made: credentials that are not configured, an
  empty chunk, a chunk longer than the limit; \<open>refusal\<close> is the error thrown, or \<open>None\<close>
  when the chunk goes out. \<open>failureOf\<close> is the error of a send whose request did not
  succeed: the rejection of \<open>fetchWithRetry\<close>, a status outside 200 to 299, or a body that
  is not JSON.
\<close>

definition refusal :: "whatsapp_env \<Rightarrow> jsstring \<Rightarrow> send_error option" where
  "refusal env chunk =
     (if unset (WHATSAPP_TOKEN env) \<or> unset (PHONE_NUMBER_ID env) then Some CredentialsNotConfigured
      else if chunk = [] then Some NotANonEmptyString
      else if WHATSAPP_MESSAGE_MAX_LENGTH < length chunk then Some (LengthExceedsLimit (length chunk))
      else None)"

definition failureOf :: "fetch_result \<Rightarrow> send_error" where
  "failureOf result =
     (case result of
        Rejected e \<Rightarrow> FetchRejected e
      | Resolved r \<Rightarrow> if ok r then InvalidJson else WhatsAppApiError (status r))"

text \<open>
  A text of the form \<open>[digits/digits]\<close> followed by a blank line: \<open>indicator a b\<close> for
  non-empty runs of digits \<open>a\<close> and \<open>b\<close>.
\<close>

definition digitRun :: "jsstring \<Rightarrow> bool" where
  "digitRun a = (a \<noteq> [] \<and> list_all isDigit a)"

definition indicator :: "jsstring \<Rightarrow> jsstring \<Rightarrow> jsstring" where
  "indicator a b = js ''['' @ a @ js ''/'' @ b @ js '']'' @ [LF, LF]"

text \<open>
  A sentence-ending boundary starts at index \<open>i\<close> of \<open>s\<close>: a sentence mark followed by white
  space, or two line feeds (a blank line). \<open>boundaryEnd\<close> is the index just after it: the
  mark with the whole run of white space that follows, or the whole run of line feeds.
\<close>

definition boundaryAt :: "jsstring \<Rightarrow> nat \<Rightarrow> bool" where
  "boundaryAt s i =
     (Suc i < length s
      \<and> ((isSentencePunct (s ! i) \<and> isWhiteSpace (s ! Suc i)) \<or> (s ! i = LF \<and> s ! Suc i = LF)))"

definition boundaryEnd :: "jsstring \<Rightarrow> nat \<Rightarrow> nat" where
  "boundaryEnd s i =
     (if isSentencePunct (s ! i)
      then Suc i + length (takeWhile isWhiteSpace (drop (Suc i) s))
      else Suc i + length (takeWhile (\<lambda>x. x = LF) (drop (Suc i) s)))"


section \<open>Properties of the splitter\<close>

subsection \<open>Messages that fit\<close>

text \<open>
  Claim C3, as amended: for every non-empty string \<open>text\<close> with length at most
  \<open>maxLength\<close>, \<open>splitMessage(text, maxLength)\<close> returns exactly one chunk, equal to \<open>text\<close>,
  unmodified and with no header.
\<close>

theorem splitMessage_fits:
  "text \<noteq> [] \<Longrightarrow> length text \<le> maxLength \<Longrightarrow> splitMessage text maxLength = Some [text]"
  by (simp add: splitMessage_def)

theorem splitMessage_fits_witness:
  "js ''Hi'' \<noteq> [] \<and> length (js ''Hi'') \<le> 4096 \<and> splitMessage (js ''Hi'') 4096 = Some [js ''Hi'']"
  using splitMessage_fits [of "js ''Hi''" 4096] by (simp add: js_def)

text \<open>
  Claim C3 as stated fails for the empty string: its length is at most \<open>maxLength\<close>, and
  the guard \<open>!message\<close> makes \<open>splitMessage\<close> return no chunk at all.
\<close>

theorem splitMessage_empty_counterexample:
  "length ([] :: jsstring) \<le> WHATSAPP_MESSAGE_MAX_LENGTH
   \<and> splitMessage [] WHATSAPP_MESSAGE_MAX_LENGTH = Some []
   \<and> splitMessage [] WHATSAPP_MESSAGE_MAX_LENGTH \<noteq> Some [[]]"
  by (simp add: splitMessage_def)

subsection \<open>The loop returns\<close>

lemma splitLoop_done:
  "remaining = [] \<Longrightarrow> splitLoop messageLength maxLength remaining chunks = Some chunks"
  by (subst splitLoop.simps) simp

lemma splitLoop_last:
  "remaining \<noteq> [] \<Longrightarrow> length remaining \<le> maxLength \<Longrightarrow>
   splitLoop messageLength maxLength remaining chunks = Some (chunks @ [remaining])"
  by (subst splitLoop.simps) simp

lemma splitLoop_step:
  "maxLength < length remaining \<Longrightarrow> 0 < maxLength \<Longrightarrow>
   splitLoop messageLength maxLength remaining chunks =
   splitLoop messageLength maxLength
     (trim (substringFrom remaining (splitIndexOf remaining maxLength)))
     (chunks @ [renderChunk messageLength maxLength chunks
                  (trim (substringTo remaining (splitIndexOf remaining maxLength)))])"
  by (subst splitLoop.simps) auto

lemma splitLoop_returns:
  "0 < maxLength \<Longrightarrow>
   \<exists>out. splitLoop messageLength maxLength remaining chunks = Some out
     \<and> length chunks \<le> length out \<and> (remaining \<noteq> [] \<longrightarrow> length chunks < length out)"
proof (induction messageLength maxLength remaining chunks rule: splitLoop.induct)
  case (1 messageLength maxLength remaining chunks)
  show ?case
  proof (cases "remaining = []")
    case True
    then show ?thesis by (simp add: splitLoop_done)
  next
    case ne: False
    show ?thesis
    proof (cases "length remaining \<le> maxLength")
      case True
      then show ?thesis using ne by (simp add: splitLoop_last)
    next
      case False
      then have long: "maxLength < length remaining" by simp
      have live: "\<not> (maxLength = 0 \<and> trim remaining = remaining)" using "1.prems" by simp
      have ne': "length remaining \<noteq> 0" using ne by simp
      from "1.IH" [OF ne' False live "1.prems"] obtain out where
        out: "splitLoop messageLength maxLength
           (trim (substringFrom remaining (splitIndexOf remaining maxLength)))
           (chunks @ [renderChunk messageLength maxLength chunks
                        (trim (substringTo remaining (splitIndexOf remaining maxLength)))]) = Some out"
        and len: "length (chunks @ [renderChunk messageLength maxLength chunks
                        (trim (substringTo remaining (splitIndexOf remaining maxLength)))]) \<le> length out"
        by blast
      from len have "length chunks < length out" by simp
      then show ?thesis using out splitLoop_step [OF long "1.prems"] by simp
    qed
  qed
qed

lemma length_addIndicators: "length (addIndicators chunks) = length chunks"
  by (simp add: addIndicators_def)

lemma splitMessageWithIndicators_returns:
  "\<exists>chunks. splitMessageWithIndicators message = Some chunks \<and> (message \<noteq> [] \<longrightarrow> chunks \<noteq> [])"
proof (cases "message = [] \<or> length message \<le> WHATSAPP_MESSAGE_MAX_LENGTH")
  case True
  then show ?thesis
    by (auto simp: splitMessageWithIndicators_def splitMessage_def addIndicators_def)
next
  case False
  obtain out where out: "splitLoop (length message) WHATSAPP_MESSAGE_MAX_LENGTH message [] = Some out"
    and len: "message \<noteq> [] \<longrightarrow> 0 < length out"
    using splitLoop_returns [of WHATSAPP_MESSAGE_MAX_LENGTH "length message" message "[]"]
    by (auto simp: WHATSAPP_MESSAGE_MAX_LENGTH_def)
  have "splitMessageWithIndicators message = Some (addIndicators out)"
    using False out by (simp add: splitMessageWithIndicators_def splitMessage_def)
  moreover have "length (addIndicators out) \<noteq> 0"
    using False len by (simp add: length_addIndicators)
  ultimately show ?thesis by auto
qed


subsection \<open>Characters, digits and headers\<close>

lemma a_plain: "\<not> isWhiteSpace 0x61" "\<not> isSentencePunct 0x61" "(0x61::jschar) \<noteq> LF" "\<not> isDigit 0x61"
  by (simp_all add: isWhiteSpace_def isSentencePunct_def LF_def isDigit_def)

lemma js_lit: "js ''['' = [0x5B]" "js ''/'' = [0x2F]" "js '']'' = [0x5D]" "js ''[Part '' = [0x5B, 0x50, 0x61, 0x72, 0x74, 0x20]"
  by (simp_all add: js_def)

lemma digit_char: "d < 10 \<Longrightarrow> isDigit (0x30 + of_nat d)"
proof -
  assume "d < 10"
  then have "d = 0 \<or> d = 1 \<or> d = 2 \<or> d = 3 \<or> d = 4 \<or> d = 5 \<or> d = 6 \<or> d = 7 \<or> d = 8 \<or> d = 9"
    by arith
  then show ?thesis by (elim disjE) (simp_all add: isDigit_def)
qed

lemma digitsOf_nonempty: "digitsOf n \<noteq> []"
  by (subst digitsOf.simps) simp

lemma digitsOf_digits: "c \<in> set (digitsOf n) \<Longrightarrow> isDigit c"
proof (induction n arbitrary: c rule: digitsOf.induct)
  case (1 n)
  show ?case
  proof (cases "n < 10")
    case True
    with "1.prems" show ?thesis by (subst (asm) digitsOf.simps) (simp add: digit_char)
  next
    case False
    with "1.prems" have "c \<in> set (digitsOf (n div 10)) \<or> c = 0x30 + of_nat (n mod 10)"
      by (subst (asm) digitsOf.simps) auto
    then show ?thesis
    proof
      assume "c \<in> set (digitsOf (n div 10))"
      then show ?thesis by (rule "1.IH" [OF False])
    next
      assume "c = 0x30 + of_nat (n mod 10)"
      then show ?thesis by (simp add: digit_char)
    qed
  qed
qed

lemma not_digit: "\<not> isDigit 0x2F" "\<not> isDigit 0x5D"
  by (simp_all add: isDigit_def)

lemma stripPrefix_append: "stripPrefix p (p @ rest) = Some rest"
  by (simp add: stripPrefix_def)

lemma removeIndicator_splitHeader:
  "removeIndicator (splitHeader k (Finite n) @ body) = body"
proof -
  have d1: "takeWhile isDigit (digitsOf k @ js ''/'' @ digitsOf n @ js '']'' @ [LF, LF] @ body) = digitsOf k"
    by (simp add: takeWhile_append2 digitsOf_digits js_lit not_digit)
  have d2: "dropWhile isDigit (digitsOf k @ js ''/'' @ digitsOf n @ js '']'' @ [LF, LF] @ body)
      = js ''/'' @ digitsOf n @ js '']'' @ [LF, LF] @ body"
    by (simp add: dropWhile_append2 digitsOf_digits js_lit not_digit)
  have d3: "takeWhile isDigit (digitsOf n @ js '']'' @ [LF, LF] @ body) = digitsOf n"
    by (simp add: takeWhile_append2 digitsOf_digits js_lit not_digit)
  have d4: "dropWhile isDigit (digitsOf n @ js '']'' @ [LF, LF] @ body)
      = (js '']'' @ [LF, LF]) @ body"
    by (simp add: dropWhile_append2 digitsOf_digits js_lit not_digit)
  have s1: "stripPrefix (js ''['') (splitHeader k (Finite n) @ body)
      = Some (digitsOf k @ js ''/'' @ digitsOf n @ js '']'' @ [LF, LF] @ body)"
    using stripPrefix_append [of "js ''[''"] by (simp add: splitHeader_def)
  have s2: "stripPrefix (js ''/'') (js ''/'' @ digitsOf n @ js '']'' @ [LF, LF] @ body)
      = Some (digitsOf n @ js '']'' @ [LF, LF] @ body)"
    by (rule stripPrefix_append)
  have s3: "stripPrefix (js '']'' @ [LF, LF]) ((js '']'' @ [LF, LF]) @ body) = Some body"
    by (rule stripPrefix_append)
  show ?thesis
    unfolding removeIndicator_def s1 option.case d1 d2 s2 d3 d4 s3
    by (simp add: digitsOf_nonempty)
qed

lemma removeIndicator_other: "s = [] \<or> hd s \<noteq> 0x5B \<Longrightarrow> removeIndicator s = s"
  by (cases s) (auto simp: removeIndicator_def stripPrefix_def js_lit)

lemma trim_id: "s = [] \<or> (\<not> isWhiteSpace (hd s) \<and> \<not> isWhiteSpace (last s)) \<Longrightarrow> trim s = s"
proof (cases s)
  case Nil
  then show ?thesis by (simp add: trim_def)
next
  case (Cons x xs)
  assume "s = [] \<or> (\<not> isWhiteSpace (hd s) \<and> \<not> isWhiteSpace (last s))"
  with Cons have h: "\<not> isWhiteSpace x" and l: "\<not> isWhiteSpace (last s)" by auto
  have "dropWhile isWhiteSpace s = s" using Cons h by simp
  moreover have "dropWhile isWhiteSpace (rev s) = rev s"
    using Cons l by (cases "rev s") (auto simp: hd_rev [symmetric] simp del: hd_rev)
  ultimately show ?thesis by (simp add: trim_def)
qed

lemma trim_all_space: "\<forall>c \<in> set s. isWhiteSpace c \<Longrightarrow> trim s = []"
proof -
  assume "\<forall>c \<in> set s. isWhiteSpace c"
  then have eq: "dropWhile isWhiteSpace s = []" by simp
  show ?thesis unfolding trim_def eq by simp
qed

lemma sentenceEndMatch_plain:
  "\<forall>c \<in> set s. \<not> isSentencePunct c \<and> c \<noteq> LF \<Longrightarrow> sentenceEndMatch s = None"
  by (induction s) (auto simp: sentenceEndAt_def)

lemma lastIndexFrom_notin: "c \<notin> set xs \<Longrightarrow> lastIndexFrom c xs i found = found"
  by (induction xs arbitrary: i found) auto

lemma lastIndexFrom_append:
  "lastIndexFrom c (xs @ ys) i found = lastIndexFrom c ys (i + int (length xs)) (lastIndexFrom c xs i found)"
  by (induction xs arbitrary: i found) (auto simp: algebra_simps)

lemma lastIndexOf_notin: "c \<notin> set s \<Longrightarrow> lastIndexOf s c = - 1"
  by (simp add: lastIndexOf_def lastIndexFrom_notin)

lemma lastIndexOf_plain_tail: "c \<notin> set ys \<Longrightarrow> lastIndexOf (xs @ ys) c = lastIndexOf xs c"
  by (simp add: lastIndexOf_def lastIndexFrom_append lastIndexFrom_notin)


subsection \<open>Runs on plain text\<close>

lemma findSplitIndex_plain:
  assumes "\<forall>c \<in> set (drop (length chunk - min 200 (length chunk)) chunk). \<not> isSentencePunct c \<and> c \<noteq> LF"
    and "5 * lastIndexOf chunk LF \<le> 4 * int maxLength"
  shows "findSplitIndex chunk maxLength = maxLength"
  using assms
  by (simp add: findSplitIndex_def Let_def substringFrom_def sentenceEndMatch_plain)

lemma splitLoop_cut:
  assumes "maxLength < length remaining" and "0 < maxLength"
    and "splitIndexOf remaining maxLength = k"
    and "trim (substringTo remaining k) = body"
    and "trim (substringFrom remaining k) = rest"
  shows "splitLoop messageLength maxLength remaining chunks
         = splitLoop messageLength maxLength rest
             (chunks @ [renderChunk messageLength maxLength chunks body])"
  using assms by (simp add: splitLoop_step)

lemma LF_not_a: "LF \<noteq> 0x61"
  by (simp add: LF_def)

lemma part_headers:
  "partHeader (Suc 0) (Suc (Suc 0)) = [0x5B, 0x50, 0x61, 0x72, 0x74, 0x20, 0x31, 0x2F, 0x32, 0x5D, 0x0A, 0x0A]"
  "partHeader (Suc (Suc 0)) (Suc (Suc 0)) = [0x5B, 0x50, 0x61, 0x72, 0x74, 0x20, 0x32, 0x2F, 0x32, 0x5D, 0x0A, 0x0A]"
  by (simp_all add: partHeader_def js_def digitsOf.simps LF_def)

lemma part_literals:
  "js ''[Part 1/2]'' @ [LF, LF] = [0x5B, 0x50, 0x61, 0x72, 0x74, 0x20, 0x31, 0x2F, 0x32, 0x5D, 0x0A, 0x0A]"
  "js ''[Part 2/2]'' @ [LF, LF] = [0x5B, 0x50, 0x61, 0x72, 0x74, 0x20, 0x32, 0x2F, 0x32, 0x5D, 0x0A, 0x0A]"
  "js ''[1/2]'' @ [LF, LF] = [0x5B, 0x31, 0x2F, 0x32, 0x5D, 0x0A, 0x0A]"
  by (simp_all add: js_def LF_def)

lemma split_header_1_2:
  "splitHeader (Suc 0) (Finite 2) = [0x5B, 0x31, 0x2F, 0x32, 0x5D, 0x0A, 0x0A]"
  by (simp add: splitHeader_def js_def digitsOf.simps LF_def)

lemma ceilDiv_two: "ceilDiv 4097 4096 = Finite 2" "ceilDiv 4108 4096 = Finite 2"
  by (simp_all add: ceilDiv_def)

lemma split_plain_4097:
  "splitMessage (replicate 4097 0x61) WHATSAPP_MESSAGE_MAX_LENGTH
   = Some [splitHeader (Suc 0) (Finite 2) @ replicate 4096 0x61, replicate 1 0x61]"
proof -
  let ?m = "replicate 4097 (0x61 :: jschar)"
  have cut: "splitIndexOf ?m 4096 = 4096"
    unfolding splitIndexOf_def substringTo_def
    by (rule findSplitIndex_plain) (simp_all add: a_plain lastIndexOf_notin LF_not_a)
  have t1: "trim (substringTo ?m 4096) = replicate 4096 0x61"
    by (simp add: substringTo_def trim_id a_plain)
  have t2: "trim (substringFrom ?m 4096) = replicate 1 0x61"
    by (simp add: substringFrom_def trim_id a_plain)
  have "splitLoop 4097 4096 ?m [] =
        splitLoop 4097 4096 (replicate 1 0x61) [splitHeader (Suc 0) (Finite 2) @ replicate 4096 0x61]"
    by (subst splitLoop_step) (simp_all add: cut t1 t2 renderChunk_def ceilDiv_two)
  also have "\<dots> = Some [splitHeader (Suc 0) (Finite 2) @ replicate 4096 0x61, replicate 1 0x61]"
    by (subst splitLoop_last) simp_all
  finally show ?thesis by (simp add: splitMessage_def WHATSAPP_MESSAGE_MAX_LENGTH_def)
qed

lemma indicators_plain_4097:
  "splitMessageWithIndicators (replicate 4097 0x61)
   = Some [js ''[Part 1/2]'' @ [LF, LF] @ replicate 4096 0x61,
           js ''[Part 2/2]'' @ [LF, LF] @ replicate 1 0x61]"
proof -
  have "addIndicators [splitHeader (Suc 0) (Finite 2) @ replicate 4096 0x61, replicate 1 0x61]
     = [partHeader (Suc 0) (Suc (Suc 0)) @ replicate 4096 0x61,
        partHeader (Suc (Suc 0)) (Suc (Suc 0)) @ replicate 1 0x61]"
    by (simp add: addIndicators_def enumerate_eq_zip withIndicator_def removeIndicator_splitHeader
        removeIndicator_other upt_rec)
  then show ?thesis
    using part_literals
    by (simp add: splitMessageWithIndicators_def split_plain_4097 part_headers)
qed

lemma split_trailing_space:
  "splitMessageWithIndicators (replicate 4096 0x61 @ [0x20])
   = Some [js ''[1/2]'' @ [LF, LF] @ replicate 4096 0x61]"
proof -
  let ?m = "replicate 4096 (0x61 :: jschar) @ [0x20]"
  have cut: "splitIndexOf ?m 4096 = 4096"
    unfolding splitIndexOf_def substringTo_def
    by (rule findSplitIndex_plain) (simp_all add: a_plain lastIndexOf_notin LF_not_a)
  have t1: "trim (substringTo ?m 4096) = replicate 4096 0x61"
    by (simp add: substringTo_def trim_id a_plain)
  have t2: "trim (substringFrom ?m 4096) = []"
    by (simp add: substringFrom_def trim_all_space isWhiteSpace_def)
  have "splitLoop 4097 4096 ?m [] =
        splitLoop 4097 4096 [] [splitHeader (Suc 0) (Finite 2) @ replicate 4096 0x61]"
    by (subst splitLoop_step) (simp_all add: cut t1 t2 renderChunk_def ceilDiv_two)
  also have "\<dots> = Some [splitHeader (Suc 0) (Finite 2) @ replicate 4096 0x61]"
    by (rule splitLoop_done) simp
  finally show ?thesis
    using part_literals
    by (simp add: splitMessageWithIndicators_def splitMessage_def WHATSAPP_MESSAGE_MAX_LENGTH_def
        addIndicators_def split_header_1_2)
qed

lemma rechunk:
  "splitMessageWithIndicators (js ''[Part 1/2]'' @ [LF, LF] @ replicate 4096 0x61)
   = Some [js ''[Part 1/2]'' @ [LF, LF] @ js ''[Part 1/2]'' @ [LF, LF] @ replicate 4084 0x61,
           js ''[Part 2/2]'' @ [LF, LF] @ replicate 12 0x61]"
proof -
  let ?h = "[0x5B, 0x50, 0x61, 0x72, 0x74, 0x20, 0x31, 0x2F, 0x32, 0x5D, 0x0A, 0x0A] :: jsstring"
  let ?m = "?h @ replicate 4096 (0x61 :: jschar)"
  have tk: "take 4096 ?m = ?h @ replicate 4084 0x61"
    by simp
  have dr: "drop 4096 ?m = replicate 12 0x61"
    by simp
  have li: "lastIndexOf (?h @ replicate 4084 0x61) LF = 11"
    by (subst lastIndexOf_plain_tail) (simp_all add: LF_not_a lastIndexOf_def LF_def)
  have cut: "splitIndexOf ?m 4096 = 4096"
    unfolding splitIndexOf_def substringTo_def tk
  proof (rule findSplitIndex_plain)
    show "\<forall>c \<in> set (drop (length (?h @ replicate 4084 0x61)
              - min 200 (length (?h @ replicate 4084 0x61))) (?h @ replicate 4084 0x61)).
            \<not> isSentencePunct c \<and> c \<noteq> LF"
      by (simp add: a_plain)
    show "5 * lastIndexOf (?h @ replicate 4084 0x61) LF \<le> 4 * int 4096"
      unfolding li by simp
  qed
  have t1: "trim (substringTo ?m 4096) = ?h @ replicate 4084 0x61"
    unfolding substringTo_def tk
    by (rule trim_id) (simp add: a_plain isWhiteSpace_def)
  have t2: "trim (substringFrom ?m 4096) = replicate 12 0x61"
    unfolding substringFrom_def dr by (rule trim_id) (simp add: a_plain)
  have "splitLoop 4108 4096 ?m [] =
        splitLoop 4108 4096 (replicate 12 0x61)
          ([] @ [renderChunk 4108 4096 [] (?h @ replicate 4084 0x61)])"
    by (rule splitLoop_cut [OF _ _ cut t1 t2]) simp_all
  also have "\<dots> = splitLoop 4108 4096 (replicate 12 0x61)
          [splitHeader (Suc 0) (Finite 2) @ ?h @ replicate 4084 0x61]"
    by (simp add: renderChunk_def ceilDiv_two)
  also have "\<dots> = Some [splitHeader (Suc 0) (Finite 2) @ ?h @ replicate 4084 0x61,
                           replicate 12 0x61]"
    by (subst splitLoop_last) simp_all
  finally have sm: "splitMessage ?m WHATSAPP_MESSAGE_MAX_LENGTH
      = Some [splitHeader (Suc 0) (Finite 2) @ ?h @ replicate 4084 0x61, replicate 12 0x61]"
    by (simp add: splitMessage_def WHATSAPP_MESSAGE_MAX_LENGTH_def)
  have ai: "addIndicators [splitHeader (Suc 0) (Finite 2) @ ?h @ replicate 4084 0x61, replicate 12 0x61]
     = [partHeader (Suc 0) (Suc (Suc 0)) @ ?h @ replicate 4084 0x61,
        partHeader (Suc (Suc 0)) (Suc (Suc 0)) @ replicate 12 0x61]"
    by (simp add: addIndicators_def enumerate_eq_zip withIndicator_def removeIndicator_splitHeader
        removeIndicator_other upt_rec)
  have "splitMessageWithIndicators ?m
     = Some (addIndicators [splitHeader (Suc 0) (Finite 2) @ ?h @ replicate 4084 0x61,
                            replicate 12 0x61])"
    unfolding splitMessageWithIndicators_def sm by simp
  then show ?thesis
    unfolding ai part_headers by (simp add: js_def LF_def)
qed

subsection \<open>The cut point\<close>

lemma punct_not_LF: "isSentencePunct c \<Longrightarrow> c \<noteq> LF"
  by (auto simp: isSentencePunct_def LF_def)

lemma boundaryAt_Cons_Suc: "boundaryAt (c # cs) (Suc i) = boundaryAt cs i"
  by (simp add: boundaryAt_def)

lemma boundaryEnd_Cons_Suc: "boundaryEnd (c # cs) (Suc i) = Suc (boundaryEnd cs i)"
  by (simp add: boundaryEnd_def)

lemma sentenceEndAt_head:
  "sentenceEndAt (c # cs) = (if boundaryAt (c # cs) 0 then Some (boundaryEnd (c # cs) 0) else None)"
  by (cases cs) (auto simp: sentenceEndAt_def boundaryAt_def boundaryEnd_def dest: punct_not_LF)


lemma sentenceEndMatch_first:
  "boundaryAt s i \<Longrightarrow> (\<forall>j<i. \<not> boundaryAt s j) \<Longrightarrow>
   \<exists>len. sentenceEndMatch s = Some (i, len) \<and> i + len = boundaryEnd s i"
proof (induction s arbitrary: i)
  case Nil
  then show ?case by (simp add: boundaryAt_def)
next
  case (Cons c cs)
  show ?case
  proof (cases i)
    case 0
    then show ?thesis using Cons.prems(1) by (simp add: sentenceEndAt_head)
  next
    case (Suc i')
    then have no0: "\<not> boundaryAt (c # cs) 0" using Cons.prems(2) by blast
    have b: "boundaryAt cs i'" using Cons.prems(1) Suc by (simp add: boundaryAt_Cons_Suc)
    have nb: "\<forall>j<i'. \<not> boundaryAt cs j"
    proof (intro allI impI)
      fix j assume "j < i'"
      then have "\<not> boundaryAt (c # cs) (Suc j)" using Cons.prems(2) Suc by simp
      then show "\<not> boundaryAt cs j" by (simp add: boundaryAt_Cons_Suc)
    qed
    from Cons.IH [OF b nb] obtain len where
      "sentenceEndMatch cs = Some (i', len)" "i' + len = boundaryEnd cs i'" by blast
    then show ?thesis using no0 Suc
      by (simp add: sentenceEndAt_head boundaryEnd_Cons_Suc)
  qed
qed






text \<open>
  A line feed exactly at 80% of \<open>maxLength\<close> (index 8 of 10) is not used: the test of the
  source is a strict \<open>>\<close>.
\<close>

lemma line_break_at_80_percent:
  "lastIndexOf (take 10 (js ''abcdefgh'' @ [LF] @ js ''ijklm'')) LF = 8
   \<and> splitIndexOf (js ''abcdefgh'' @ [LF] @ js ''ijklm'') 10 = 10"
  by code_simp

subsection \<open>A run with a sentence boundary\<close>

lemma b_plain: "\<not> isWhiteSpace 0x62" "\<not> isSentencePunct 0x62" "(0x62::jschar) \<noteq> LF" "LF \<noteq> 0x62"
  "(0x62::jschar) \<noteq> 0x5B"
  by (simp_all add: isWhiteSpace_def isSentencePunct_def LF_def)

lemma dot_space: "isSentencePunct 0x2E" "isWhiteSpace 0x20" "\<not> isWhiteSpace 0x2E"
  by (simp_all add: isWhiteSpace_def isSentencePunct_def)

lemma findSplitIndex_first:
  assumes "boundaryAt (drop (length chunk - min 200 (length chunk)) chunk) i"
    and "\<forall>j<i. \<not> boundaryAt (drop (length chunk - min 200 (length chunk)) chunk) j"
  shows "findSplitIndex chunk maxLength
         = length chunk - min 200 (length chunk)
           + boundaryEnd (drop (length chunk - min 200 (length chunk)) chunk) i"
proof -
  obtain len where "sentenceEndMatch (drop (length chunk - min 200 (length chunk)) chunk) = Some (i, len)"
    "i + len = boundaryEnd (drop (length chunk - min 200 (length chunk)) chunk) i"
    using sentenceEndMatch_first [OF assms] by blast
  then show ?thesis
    by (simp add: findSplitIndex_def Let_def substringFrom_def)
qed

lemma trim_trailing:
  assumes "s \<noteq> []" and "\<not> isWhiteSpace (hd s)" and "\<not> isWhiteSpace (last s)"
    and "\<forall>c \<in> set t. isWhiteSpace c"
  shows "trim (s @ t) = s"
proof -
  have front: "dropWhile isWhiteSpace (s @ t) = s @ t"
    using assms(1,2) by (cases s) simp_all
  have "dropWhile isWhiteSpace (rev t @ rev s) = dropWhile isWhiteSpace (rev s)"
    by (rule dropWhile_append2) (use assms(4) in auto)
  also have "\<dots> = rev s"
    using assms(1,3) by (cases "rev s") (auto simp: hd_rev [symmetric] simp del: hd_rev)
  finally show ?thesis by (simp add: trim_def front)
qed

lemma split_twoSentences:
  "splitMessageWithIndicators twoSentences
   = Some [js ''[Part 1/2]'' @ [LF, LF] @ replicate 4000 0x61 @ [0x2E],
           js ''[Part 2/2]'' @ [LF, LF] @ replicate 1000 0x62]"
proof -
  let ?w = "replicate 104 (0x61 :: jschar) @ [0x2E, 0x20] @ replicate 94 0x62"
  have tk: "take 4096 twoSentences = replicate 4000 0x61 @ [0x2E, 0x20] @ replicate 94 0x62"
    by (simp add: twoSentences_def)
  have w: "drop (length (take 4096 twoSentences) - min 200 (length (take 4096 twoSentences)))
             (take 4096 twoSentences) = ?w"
    by (simp add: twoSentences_def)
  have at: "boundaryAt ?w 104"
    by (simp add: boundaryAt_def nth_append dot_space)
  have before: "\<forall>j<104. \<not> boundaryAt ?w j"
    by (simp add: boundaryAt_def nth_append a_plain LF_not_a)
  have "drop 105 ?w = 0x20 # replicate 94 0x62" by simp
  then have en: "boundaryEnd ?w 104 = 106"
    by (simp add: boundaryEnd_def nth_append dot_space b_plain)
  have cut: "splitIndexOf twoSentences 4096 = 4002"
    unfolding splitIndexOf_def substringTo_def
    using findSplitIndex_first [of "take 4096 twoSentences" 104 4096] at before en
    unfolding w by (simp add: twoSentences_def)
  have "take 4002 twoSentences = (replicate 4000 0x61 @ [0x2E]) @ [0x20]"
    by (simp add: twoSentences_def)
  then have t1: "trim (substringTo twoSentences 4002) = replicate 4000 0x61 @ [0x2E]"
    unfolding substringTo_def
    by (simp only:) (rule trim_trailing, simp_all add: a_plain dot_space hd_append)
  have "drop 4002 twoSentences = replicate 1000 0x62"
    by (simp add: twoSentences_def)
  then have t2: "trim (substringFrom twoSentences 4002) = replicate 1000 0x62"
    unfolding substringFrom_def by (simp add: trim_id b_plain)
  have len: "length twoSentences = 5002" by (simp add: twoSentences_def)
  have "splitLoop 5002 4096 twoSentences [] =
        splitLoop 5002 4096 (replicate 1000 0x62)
          ([] @ [renderChunk 5002 4096 [] (replicate 4000 0x61 @ [0x2E])])"
    by (rule splitLoop_cut [OF _ _ cut t1 t2]) (simp_all add: len)
  also have "\<dots> = splitLoop 5002 4096 (replicate 1000 0x62)
          [splitHeader (Suc 0) (Finite 2) @ replicate 4000 0x61 @ [0x2E]]"
    by (simp add: renderChunk_def ceilDiv_def)
  also have "\<dots> = Some [splitHeader (Suc 0) (Finite 2) @ replicate 4000 0x61 @ [0x2E],
                           replicate 1000 0x62]"
    by (subst splitLoop_last) simp_all
  finally have sm: "splitMessage twoSentences WHATSAPP_MESSAGE_MAX_LENGTH
      = Some [splitHeader (Suc 0) (Finite 2) @ replicate 4000 0x61 @ [0x2E], replicate 1000 0x62]"
    by (simp add: splitMessage_def WHATSAPP_MESSAGE_MAX_LENGTH_def len) (simp add: twoSentences_def)
  have ai: "addIndicators [splitHeader (Suc 0) (Finite 2) @ replicate 4000 0x61 @ [0x2E],
                           replicate 1000 0x62]
     = [partHeader (Suc 0) (Suc (Suc 0)) @ replicate 4000 0x61 @ [0x2E],
        partHeader (Suc (Suc 0)) (Suc (Suc 0)) @ replicate 1000 0x62]"
    by (simp add: addIndicators_def enumerate_eq_zip withIndicator_def removeIndicator_splitHeader
        removeIndicator_other upt_rec b_plain)
  have "splitMessageWithIndicators twoSentences
     = Some (addIndicators [splitHeader (Suc 0) (Finite 2) @ replicate 4000 0x61 @ [0x2E],
                            replicate 1000 0x62])"
    unfolding splitMessageWithIndicators_def sm by simp
  then show ?thesis
    unfolding ai part_headers by (simp add: js_def LF_def)
qed

subsection \<open>Headers\<close>

lemma ceilDiv_finite:
  "0 < maxLength \<Longrightarrow> maxLength < messageLength \<Longrightarrow>
   \<exists>n. ceilDiv messageLength maxLength = Finite n \<and> 1 < n"
proof -
  assume pos: "0 < maxLength" and long: "maxLength < messageLength"
  have "2 * maxLength \<le> messageLength + maxLength - 1" using long by simp
  then have "2 * maxLength div maxLength \<le> (messageLength + maxLength - 1) div maxLength"
    by (rule div_le_mono)
  then have "2 \<le> (messageLength + maxLength - 1) div maxLength" using pos by simp
  then show ?thesis using pos by (simp add: ceilDiv_def)
qed

lemma renderChunk_header:
  "0 < maxLength \<Longrightarrow> maxLength < messageLength \<Longrightarrow>
   renderChunk messageLength maxLength chunks body
   = splitHeader (Suc (length chunks)) (ceilDiv messageLength maxLength) @ body"
  using ceilDiv_finite [of maxLength messageLength]
  by (auto simp: renderChunk_def Let_def)

lemma splitLoop_headers:
  "0 < maxLength \<Longrightarrow> maxLength < messageLength \<Longrightarrow>
   splitLoop messageLength maxLength remaining chunks = Some out \<Longrightarrow>
   (\<forall>i < length chunks. \<exists>body. chunks ! i = splitHeader (Suc i) (ceilDiv messageLength maxLength) @ body) \<Longrightarrow>
   (\<forall>i. Suc i < length out \<longrightarrow>
      (\<exists>body. out ! i = splitHeader (Suc i) (ceilDiv messageLength maxLength) @ body))"
proof (induction messageLength maxLength remaining chunks rule: splitLoop.induct)
  case (1 messageLength maxLength remaining chunks)
  show ?case
  proof (cases "remaining = []")
    case True
    then have "out = chunks" using "1.prems"(3) by (simp add: splitLoop_done)
    then show ?thesis using "1.prems"(4) by simp
  next
    case ne: False
    show ?thesis
    proof (cases "length remaining \<le> maxLength")
      case True
      then have "out = chunks @ [remaining]" using "1.prems"(3) ne by (simp add: splitLoop_last)
      then show ?thesis using "1.prems"(4) by (simp add: nth_append)
    next
      case False
      then have long: "maxLength < length remaining" by simp
      let ?body = "trim (substringTo remaining (splitIndexOf remaining maxLength))"
      let ?chunks = "chunks @ [renderChunk messageLength maxLength chunks ?body]"
      have live: "\<not> (maxLength = 0 \<and> trim remaining = remaining)" using "1.prems"(1) by simp
      have ne': "length remaining \<noteq> 0" using ne by simp
      have rec: "splitLoop messageLength maxLength
           (trim (substringFrom remaining (splitIndexOf remaining maxLength))) ?chunks = Some out"
        using "1.prems"(3) splitLoop_step [OF long "1.prems"(1)] by simp
      have inv: "\<forall>i < length ?chunks.
          \<exists>body. ?chunks ! i = splitHeader (Suc i) (ceilDiv messageLength maxLength) @ body"
      proof (intro allI impI)
        fix i assume "i < length ?chunks"
        then consider "i < length chunks" | "i = length chunks" by fastforce
        then show "\<exists>body. ?chunks ! i = splitHeader (Suc i) (ceilDiv messageLength maxLength) @ body"
        proof cases
          case 1
          then show ?thesis using "1.prems"(4) by (simp add: nth_append)
        next
          case 2
          then show ?thesis
            using renderChunk_header [OF "1.prems"(1,2)] by (simp add: nth_append)
        qed
      qed
      show ?thesis
        by (rule "1.IH" [OF ne' False live "1.prems"(1,2) rec inv])
    qed
  qed
qed

lemma addIndicators_nth:
  "1 < length chunks \<Longrightarrow> i < length chunks \<Longrightarrow>
   addIndicators chunks ! i = partHeader (Suc i) (length chunks) @ removeIndicator (chunks ! i)"
  by (simp add: addIndicators_def withIndicator_def nth_enumerate_eq)

lemma stripPrefix_Some: "stripPrefix p s = Some r \<Longrightarrow> s = p @ r"
  by (auto simp: stripPrefix_def split: if_splits) (metis append_take_drop_id)

lemma digitRun_takeWhile: "takeWhile isDigit r \<noteq> [] \<Longrightarrow> digitRun (takeWhile isDigit r)"
  by (auto simp: digitRun_def list_all_iff dest: set_takeWhileD)

lemma removeIndicator_cases:
  "removeIndicator s = s \<or> (\<exists>a b rest. digitRun a \<and> digitRun b \<and> s = indicator a b @ rest)"
proof (cases "removeIndicator s = s")
  case True
  then show ?thesis by simp
next
  case False
  then obtain r1 r2 rest where
      s1: "stripPrefix (js ''['') s = Some r1" and d1: "takeWhile isDigit r1 \<noteq> []"
    and s2: "stripPrefix (js ''/'') (dropWhile isDigit r1) = Some r2" and d2: "takeWhile isDigit r2 \<noteq> []"
    and s3: "stripPrefix (js '']'' @ [LF, LF]) (dropWhile isDigit r2) = Some rest"
    by (auto simp: removeIndicator_def split: option.splits if_splits)
  have "s = js ''['' @ r1" using s1 by (rule stripPrefix_Some)
  also have "r1 = takeWhile isDigit r1 @ dropWhile isDigit r1" by simp
  also have "dropWhile isDigit r1 = js ''/'' @ r2" using s2 by (rule stripPrefix_Some)
  also have "r2 = takeWhile isDigit r2 @ dropWhile isDigit r2" by simp
  also have "dropWhile isDigit r2 = (js '']'' @ [LF, LF]) @ rest" using s3 by (rule stripPrefix_Some)
  finally have "s = indicator (takeWhile isDigit r1) (takeWhile isDigit r2) @ rest"
    by (simp add: indicator_def)
  then show ?thesis using digitRun_takeWhile [OF d1] digitRun_takeWhile [OF d2] by blast
qed

lemma trim_decompose:
  "\<exists>a b. s = a @ trim s @ b \<and> (\<forall>c \<in> set a. isWhiteSpace c) \<and> (\<forall>c \<in> set b. isWhiteSpace c)"
proof -
  let ?s1 = "dropWhile isWhiteSpace s"
  let ?t = "takeWhile isWhiteSpace (rev ?s1)"
  let ?d = "dropWhile isWhiteSpace (rev ?s1)"
  have e: "rev ?s1 = ?t @ ?d" by (rule takeWhile_dropWhile_id [symmetric])
  have s1: "?s1 = rev ?d @ rev ?t"
    using arg_cong [OF e, of rev] by (simp only: rev_rev_ident rev_append)
  have s: "s = takeWhile isWhiteSpace s @ ?s1" by (rule takeWhile_dropWhile_id [symmetric])
  have "s = takeWhile isWhiteSpace s @ trim s @ rev ?t"
    unfolding trim_def using s s1 by (metis (no_types))
  moreover have "\<forall>c \<in> set (takeWhile isWhiteSpace s). isWhiteSpace c"
    by (auto dest: set_takeWhileD)
  moreover have "\<forall>c \<in> set (rev ?t). isWhiteSpace c"
    by (auto dest: set_takeWhileD)
  ultimately show ?thesis by blast
qed

lemma trim_nonempty: "x \<in> set s \<Longrightarrow> \<not> isWhiteSpace x \<Longrightarrow> trim s \<noteq> []"
proof -
  assume x: "x \<in> set s" "\<not> isWhiteSpace x"
  obtain a b where s: "s = a @ trim s @ b" and a: "\<forall>c \<in> set a. isWhiteSpace c"
    and b: "\<forall>c \<in> set b. isWhiteSpace c"
    using trim_decompose by blast
  show ?thesis
  proof
    assume "trim s = []"
    with s have "s = a @ b" by simp
    then have "set s = set a \<union> set b" by (metis set_append)
    with x a b show False by auto
  qed
qed

lemma trim_last: "trim u \<noteq> [] \<Longrightarrow> \<not> isWhiteSpace (last (trim u))"
proof -
  let ?d = "dropWhile isWhiteSpace (rev (dropWhile isWhiteSpace u))"
  assume "trim u \<noteq> []"
  then have ne: "?d \<noteq> []" by (simp add: trim_def)
  then have "\<not> isWhiteSpace (hd ?d)" by (rule hd_dropWhile)
  moreover have "last (rev ?d) = hd ?d" by (rule last_rev)
  ultimately show ?thesis by (simp add: trim_def)
qed

lemma sentenceEndAt_bound: "sentenceEndAt s = Some n \<Longrightarrow> n \<le> length s"
proof (cases s)
  case Nil
  assume "sentenceEndAt s = Some n"
  with Nil show ?thesis by (simp add: sentenceEndAt_def)
next
  case (Cons c rest)
  assume "sentenceEndAt s = Some n"
  then have "n = 1 + length (takeWhile isWhiteSpace rest)
           \<or> n = 1 + length (takeWhile (\<lambda>x. x = LF) rest)"
    using Cons by (auto simp: sentenceEndAt_def split: if_splits)
  moreover have "length (takeWhile isWhiteSpace rest) \<le> length rest"
    by (rule length_takeWhile_le)
  moreover have "length (takeWhile (\<lambda>x. x = LF) rest) \<le> length rest"
    by (rule length_takeWhile_le)
  ultimately show ?thesis using Cons by auto
qed

lemma sentenceEndMatch_bound: "sentenceEndMatch s = Some (idx, len) \<Longrightarrow> idx + len \<le> length s"
proof (induction s arbitrary: idx)
  case Nil
  then show ?case by simp
next
  case (Cons c cs)
  show ?case
  proof (cases "sentenceEndAt (c # cs)")
    case (Some n)
    then have "idx = 0" "len = n" using Cons.prems by simp_all
    then show ?thesis using sentenceEndAt_bound [OF Some] by simp
  next
    case None
    then obtain idx' where "sentenceEndMatch cs = Some (idx', len)" "idx = Suc idx'"
      using Cons.prems by (auto split: option.splits)
    then show ?thesis using Cons.IH by fastforce
  qed
qed

lemma lastIndexFrom_bound:
  "found < i + int (length xs) \<Longrightarrow> lastIndexFrom c xs i found < i + int (length xs)"
proof (induction xs arbitrary: i found)
  case Nil
  then show ?case by simp
next
  case (Cons x xs)
  have "(if x = c then i else found) < (i + 1) + int (length xs)" using Cons.prems by simp
  then have "lastIndexFrom c xs (i + 1) (if x = c then i else found) < (i + 1) + int (length xs)"
    by (rule Cons.IH)
  then show ?case by simp
qed

lemma findSplitIndex_le: "findSplitIndex chunk maxLength \<le> max (length chunk) maxLength"
proof (cases "sentenceEndMatch (substringFrom chunk (length chunk - min 200 (length chunk)))")
  case None
  have "lastIndexOf chunk LF < int (length chunk)"
    using lastIndexFrom_bound [of "- 1" 0 chunk LF] by (simp add: lastIndexOf_def)
  then have "nat (lastIndexOf chunk LF + 1) \<le> length chunk" by simp
  then show ?thesis using None by (auto simp: findSplitIndex_def Let_def le_max_iff_disj)
next
  case (Some p)
  obtain idx len where p: "p = (idx, len)" by (cases p)
  have "idx + len \<le> length (substringFrom chunk (length chunk - min 200 (length chunk)))"
    using Some p by (intro sentenceEndMatch_bound) simp
  then have "idx + len \<le> min 200 (length chunk)" by (simp add: substringFrom_def)
  then have "length chunk - min 200 (length chunk) + idx + len \<le> length chunk" by arith
  then show ?thesis using Some p by (simp add: findSplitIndex_def Let_def)
qed

lemma splitIndexOf_le: "maxLength < length remaining \<Longrightarrow> splitIndexOf remaining maxLength \<le> maxLength"
  using findSplitIndex_le [of "substringTo remaining maxLength" maxLength]
  by (simp add: splitIndexOf_def substringTo_def)

lemma splitIndexOf_pos: "0 < maxLength \<Longrightarrow> 0 < splitIndexOf remaining maxLength"
  by (simp add: splitIndexOf_def findSplitIndex_pos)

text \<open>
  From the second iteration on the remaining text is trimmed, so a cut never empties it:
  the loop then ends by pushing what remains, without a header.
\<close>

lemma splitLoop_last_plain:
  assumes "splitLoop messageLength maxLength (trim u) chunks = Some out"
    and "0 < maxLength" and "trim u \<noteq> []"
    and "message = lead @ trim u @ trail" and "\<forall>c \<in> set trail. isWhiteSpace c"
  shows "out \<noteq> [] \<and> (\<exists>lead' trail'. message = lead' @ last out @ trail'
                         \<and> (\<forall>c \<in> set trail'. isWhiteSpace c))"
  using assms
proof (induction "length (trim u)" arbitrary: u chunks lead trail rule: less_induct)
  case less
  let ?r = "trim u"
  show ?case
  proof (cases "length ?r \<le> maxLength")
    case True
    then have "out = chunks @ [?r]"
      using less.prems(1,3) by (simp add: splitLoop_last)
    then show ?thesis using less.prems(4,5) by auto
  next
    case False
    then have long: "maxLength < length ?r" by simp
    let ?k = "splitIndexOf ?r maxLength"
    let ?u = "substringFrom ?r ?k"
    let ?chunks = "chunks @ [renderChunk messageLength maxLength chunks (trim (substringTo ?r ?k))]"
    have k: "0 < ?k" "?k < length ?r"
      using splitIndexOf_pos [OF less.prems(2)] splitIndexOf_le [OF long] long by simp_all
    have rec: "splitLoop messageLength maxLength (trim ?u) ?chunks = Some out"
      using less.prems(1) splitLoop_step [OF long less.prems(2)] by simp
    have u: "?u = drop ?k ?r" by (simp add: substringFrom_def)
    have une: "?u \<noteq> []" using k u by simp
    have mem: "last ?u \<in> set ?u" using une by (rule last_in_set)
    have "last ?u = last ?r" using k u by simp
    moreover have "\<not> isWhiteSpace (last ?r)" using less.prems(3) by (rule trim_last)
    ultimately have "\<not> isWhiteSpace (last ?u)" by simp
    with mem have ne: "trim ?u \<noteq> []" by (rule trim_nonempty)
    have shorter: "length (trim ?u) < length ?r"
      using length_trim_le [of ?u] k u by simp
    obtain a b where dec: "?u = a @ trim ?u @ b" and b: "\<forall>c \<in> set b. isWhiteSpace c"
      using trim_decompose [of ?u] by blast
    have "?r = take ?k ?r @ ?u" using u by simp
    then have "message = lead @ (take ?k ?r @ ?u) @ trail" using less.prems(4) by simp
    then have "message = lead @ (take ?k ?r @ (a @ trim ?u @ b)) @ trail" using dec by simp
    then have msg: "message = (lead @ take ?k ?r @ a) @ trim ?u @ (b @ trail)" by simp
    have trail: "\<forall>c \<in> set (b @ trail). isWhiteSpace c" using b less.prems(5) by auto
    show ?thesis
      by (rule less.hyps [OF shorter rec less.prems(2) ne msg trail])
  qed
qed

lemma splitMessage_last_plain:
  assumes split: "splitMessage message maxLength = Some chunks" and pos: "0 < maxLength"
    and many: "1 < length chunks"
  shows "\<exists>lead trail. message = lead @ last chunks @ trail \<and> (\<forall>c \<in> set trail. isWhiteSpace c)"
proof -
  have long: "maxLength < length message"
    using split many by (auto simp: splitMessage_def split: if_splits)
  then have loop: "splitLoop (length message) maxLength message [] = Some chunks"
    using split by (auto simp: splitMessage_def split: if_splits)
  let ?k = "splitIndexOf message maxLength"
  let ?u = "substringFrom message ?k"
  let ?first = "[] @ [renderChunk (length message) maxLength [] (trim (substringTo message ?k))]"
  have rec: "splitLoop (length message) maxLength (trim ?u) ?first = Some chunks"
    using loop splitLoop_step [OF long pos, of "length message" "[]"] by simp
  have ne: "trim ?u \<noteq> []"
  proof
    assume "trim ?u = []"
    then have "chunks = ?first" using rec by (simp add: splitLoop_done)
    then show False using many by simp
  qed
  obtain a b where dec: "?u = a @ trim ?u @ b" and b: "\<forall>c \<in> set b. isWhiteSpace c"
    using trim_decompose [of ?u] by blast
  have "message = take ?k message @ ?u" by (simp add: substringFrom_def)
  then have "message = take ?k message @ (a @ trim ?u @ b)" using dec by simp
  then have msg: "message = (take ?k message @ a) @ trim ?u @ b" by simp
  show ?thesis
    using splitLoop_last_plain [OF rec pos ne msg b] by blast
qed

lemma indicator_free_unchanged:
  "\<forall>a b rest. digitRun a \<and> digitRun b \<longrightarrow> s \<noteq> indicator a b @ rest \<Longrightarrow> removeIndicator s = s"
  using removeIndicator_cases [of s] by blast

text \<open>
  Claim C5, as amended: when \<open>splitMessage\<close> returns two or more chunks,
  \<open>splitMessageWithIndicators\<close> returns as many; every chunk but the last is the header
  \<open>[k/T]\<close> of \<open>splitMessage\<close> followed by a body, and is emitted as \<open>[Part k/N]\<close> followed by
  that same body (the old header is removed, the new one prepended, \<open>N\<close> the number of
  chunks); the last chunk is a piece of the text itself, which \<open>splitMessage\<close> pushed
  without a header, and when it does not begin with \<open>[digits/digits]\<close> and a blank line it
  is emitted as \<open>[Part N/N]\<close> followed by the chunk unchanged.
\<close>

theorem splitMessageWithIndicators_replaces_header:
  assumes split: "splitMessage message WHATSAPP_MESSAGE_MAX_LENGTH = Some chunks"
    and many: "1 < length chunks"
  shows "\<exists>out. splitMessageWithIndicators message = Some out \<and> length out = length chunks
    \<and> (\<forall>i. Suc i < length chunks \<longrightarrow>
          (\<exists>body. chunks ! i
                     = splitHeader (Suc i) (ceilDiv (length message) WHATSAPP_MESSAGE_MAX_LENGTH) @ body
                 \<and> out ! i = partHeader (Suc i) (length chunks) @ body))
    \<and> (\<exists>lead trail. message = lead @ last chunks @ trail \<and> (\<forall>c \<in> set trail. isWhiteSpace c))
    \<and> ((\<forall>a b rest. digitRun a \<and> digitRun b \<longrightarrow> last chunks \<noteq> indicator a b @ rest)
          \<longrightarrow> last out = partHeader (length chunks) (length chunks) @ last chunks)"
proof -
  let ?m = WHATSAPP_MESSAGE_MAX_LENGTH
  have pos: "0 < ?m" by (simp add: WHATSAPP_MESSAGE_MAX_LENGTH_def)
  have long: "?m < length message"
    using split many by (auto simp: splitMessage_def split: if_splits)
  then have loop: "splitLoop (length message) ?m message [] = Some chunks"
    using split by (auto simp: splitMessage_def split: if_splits)
  obtain n where n: "ceilDiv (length message) ?m = Finite n"
    using ceilDiv_finite [OF pos long] by blast
  have hdr: "\<forall>i. Suc i < length chunks \<longrightarrow>
      (\<exists>body. chunks ! i = splitHeader (Suc i) (ceilDiv (length message) ?m) @ body)"
    using splitLoop_headers [OF pos long loop] by simp
  have out: "splitMessageWithIndicators message = Some (addIndicators chunks)"
    using split by (simp add: splitMessageWithIndicators_def)
  have each: "\<forall>i. Suc i < length chunks \<longrightarrow>
          (\<exists>body. chunks ! i = splitHeader (Suc i) (ceilDiv (length message) ?m) @ body
                 \<and> addIndicators chunks ! i = partHeader (Suc i) (length chunks) @ body)"
  proof (intro allI impI)
    fix i assume i: "Suc i < length chunks"
    with hdr obtain body where
      b: "chunks ! i = splitHeader (Suc i) (ceilDiv (length message) ?m) @ body" by blast
    have "addIndicators chunks ! i = partHeader (Suc i) (length chunks) @ removeIndicator (chunks ! i)"
      using many i by (simp add: addIndicators_nth)
    then have "addIndicators chunks ! i = partHeader (Suc i) (length chunks) @ body"
      using b n by (simp add: removeIndicator_splitHeader)
    with b show "\<exists>body. chunks ! i = splitHeader (Suc i) (ceilDiv (length message) ?m) @ body
                 \<and> addIndicators chunks ! i = partHeader (Suc i) (length chunks) @ body"
      by blast
  qed
  have ne: "chunks \<noteq> []" "addIndicators chunks \<noteq> []"
    using many length_addIndicators [of chunks] by auto
  have "last (addIndicators chunks) = addIndicators chunks ! (length chunks - 1)"
    using ne by (simp add: last_conv_nth length_addIndicators)
  also have "\<dots> = partHeader (Suc (length chunks - 1)) (length chunks)
                     @ removeIndicator (chunks ! (length chunks - 1))"
    using many by (intro addIndicators_nth) simp_all
  also have "\<dots> = partHeader (length chunks) (length chunks) @ removeIndicator (last chunks)"
    using many ne by (simp add: last_conv_nth)
  finally have lst: "last (addIndicators chunks)
      = partHeader (length chunks) (length chunks) @ removeIndicator (last chunks)" .
  have plain: "(\<forall>a b rest. digitRun a \<and> digitRun b \<longrightarrow> last chunks \<noteq> indicator a b @ rest)
          \<longrightarrow> last (addIndicators chunks) = partHeader (length chunks) (length chunks) @ last chunks"
    using lst indicator_free_unchanged [of "last chunks"] by simp
  have piece: "\<exists>lead trail. message = lead @ last chunks @ trail \<and> (\<forall>c \<in> set trail. isWhiteSpace c)"
    using split pos many by (rule splitMessage_last_plain)
  have len: "length (addIndicators chunks) = length chunks" by (rule length_addIndicators)
  show ?thesis
    using out len each piece plain by (intro exI [of _ "addIndicators chunks"] conjI)
qed

lemma indicator_hd: "hd (indicator a b @ rest) = 0x5B"
  by (simp add: indicator_def js_def)

theorem splitMessageWithIndicators_replaces_header_witness:
  "splitMessage (replicate 4097 0x61) WHATSAPP_MESSAGE_MAX_LENGTH
     = Some [splitHeader (Suc 0) (Finite 2) @ replicate 4096 0x61, replicate 1 0x61]
   \<and> splitMessageWithIndicators (replicate 4097 0x61)
     = Some [js ''[Part 1/2]'' @ [LF, LF] @ replicate 4096 0x61,
             js ''[Part 2/2]'' @ [LF, LF] @ replicate 1 0x61]
   \<and> (\<exists>out. splitMessageWithIndicators (replicate 4097 0x61) = Some out
        \<and> length out = 2
        \<and> (\<exists>body. out ! 0 = partHeader 1 2 @ body)
        \<and> last out = partHeader 2 2 @ replicate 1 0x61)"
proof -
  let ?chunks = "[splitHeader (Suc 0) (Finite 2) @ replicate 4096 0x61, replicate 1 (0x61 :: jschar)]"
  have many: "1 < length ?chunks" by simp
  have free: "\<forall>a b rest. digitRun a \<and> digitRun b \<longrightarrow> last ?chunks \<noteq> indicator a b @ rest"
  proof (intro allI impI notI)
    fix a b rest assume "last ?chunks = indicator a b @ rest"
    then have "hd (last ?chunks) = hd (indicator a b @ rest)" by simp
    then show False by (simp add: indicator_hd)
  qed
  from splitMessageWithIndicators_replaces_header [OF split_plain_4097 many] free
  obtain out where o: "splitMessageWithIndicators (replicate 4097 0x61) = Some out"
    "length out = length ?chunks"
    "\<forall>i. Suc i < length ?chunks \<longrightarrow>
        (\<exists>body. ?chunks ! i = splitHeader (Suc i) (ceilDiv (length (replicate 4097 (0x61 :: jschar)))
                                                      WHATSAPP_MESSAGE_MAX_LENGTH) @ body
               \<and> out ! i = partHeader (Suc i) (length ?chunks) @ body)"
    "last out = partHeader (length ?chunks) (length ?chunks) @ last ?chunks"
    by blast
  from o(3) have "\<exists>body. out ! 0 = partHeader (Suc 0) (length ?chunks) @ body" by auto
  then have first: "\<exists>body. out ! 0 = partHeader 1 2 @ body" by (simp add: numeral_2_eq_2)
  have lst: "last out = partHeader 2 2 @ replicate 1 0x61" using o(4) by (simp add: numeral_2_eq_2)
  have len: "length out = 2" using o(2) by simp
  show ?thesis using split_plain_4097 indicators_plain_4097 o(1) len first lst by blast
qed

text \<open>
  Claim C5 as stated fails: a header that the text carries from an earlier pass is not
  removed. The first chunk emitted for 4097 letters is 4108 characters long; split again,
  its first chunk carries the header \<open>[Part 1/2]\<close> twice.
\<close>

theorem rechunk_duplicates_header_counterexample:
  "splitMessageWithIndicators (replicate 4097 0x61)
     = Some [js ''[Part 1/2]'' @ [LF, LF] @ replicate 4096 0x61,
             js ''[Part 2/2]'' @ [LF, LF] @ replicate 1 0x61]
   \<and> splitMessageWithIndicators (js ''[Part 1/2]'' @ [LF, LF] @ replicate 4096 0x61)
     = Some [js ''[Part 1/2]'' @ [LF, LF] @ js ''[Part 1/2]'' @ [LF, LF] @ replicate 4084 0x61,
             js ''[Part 2/2]'' @ [LF, LF] @ replicate 12 0x61]"
  using indicators_plain_4097 rechunk by simp

subsection \<open>Chunks at the limit\<close>

lemma lost_indicator_text:
  "splitMessageWithIndicators (replicate 4096 0x61 @ js ''[7/9]'' @ [LF, LF] @ js ''hello'')
   = Some [js ''[Part 1/2]'' @ [LF, LF] @ replicate 4096 0x61,
           js ''[Part 2/2]'' @ [LF, LF] @ js ''hello'']"
proof -
  let ?t = "[0x5B, 0x37, 0x2F, 0x39, 0x5D, 0x0A, 0x0A, 0x68, 0x65, 0x6C, 0x6C, 0x6F] :: jsstring"
  let ?m = "replicate 4096 (0x61 :: jschar) @ ?t"
  have tk: "take 4096 ?m = replicate 4096 0x61" by simp
  have dr: "drop 4096 ?m = ?t" by simp
  have cut: "splitIndexOf ?m 4096 = 4096"
    unfolding splitIndexOf_def substringTo_def tk
    by (rule findSplitIndex_plain) (simp_all add: a_plain lastIndexOf_notin LF_not_a)
  have t1: "trim (substringTo ?m 4096) = replicate 4096 0x61"
    unfolding substringTo_def tk by (rule trim_id) (simp add: a_plain)
  have t2: "trim (substringFrom ?m 4096) = ?t"
    unfolding substringFrom_def dr by (rule trim_id) (simp add: isWhiteSpace_def)
  have "splitLoop 4108 4096 ?m [] =
        splitLoop 4108 4096 ?t ([] @ [renderChunk 4108 4096 [] (replicate 4096 0x61)])"
    by (rule splitLoop_cut [OF _ _ cut t1 t2]) simp_all
  also have "\<dots> = splitLoop 4108 4096 ?t [splitHeader (Suc 0) (Finite 2) @ replicate 4096 0x61]"
    by (simp add: renderChunk_def ceilDiv_two)
  also have "\<dots> = Some [splitHeader (Suc 0) (Finite 2) @ replicate 4096 0x61, ?t]"
    by (subst splitLoop_last) simp_all
  finally have sm: "splitMessage ?m WHATSAPP_MESSAGE_MAX_LENGTH
      = Some [splitHeader (Suc 0) (Finite 2) @ replicate 4096 0x61, ?t]"
    by (simp add: splitMessage_def WHATSAPP_MESSAGE_MAX_LENGTH_def)
  have rt: "removeIndicator ?t = [0x68, 0x65, 0x6C, 0x6C, 0x6F]"
    by (simp add: removeIndicator_def stripPrefix_def js_def isDigit_def LF_def)
  have ai: "addIndicators [splitHeader (Suc 0) (Finite 2) @ replicate 4096 0x61, ?t]
     = [partHeader (Suc 0) (Suc (Suc 0)) @ replicate 4096 0x61,
        partHeader (Suc (Suc 0)) (Suc (Suc 0)) @ [0x68, 0x65, 0x6C, 0x6C, 0x6F]]"
    unfolding addIndicators_def
    by (simp add: enumerate_eq_zip withIndicator_def removeIndicator_splitHeader upt_rec rt)
  have "splitMessageWithIndicators ?m
     = Some (addIndicators [splitHeader (Suc 0) (Finite 2) @ replicate 4096 0x61, ?t])"
    unfolding splitMessageWithIndicators_def sm by simp
  then show ?thesis
    unfolding ai part_headers by (simp add: js_def LF_def)
qed

text \<open>
  Claim C1 at the input of 4097 letters \<open>a\<close>: the first chunk returned by
  \<open>splitMessageWithIndicators\<close> is \<open>[Part 1/2]\<close>, two line feeds and 4096 letters, 4108
  characters in all, more than the limit of 4096.
\<close>

theorem chunk_exceeds_limit:
  "splitMessageWithIndicators (replicate 4097 0x61)
     = Some [js ''[Part 1/2]'' @ [LF, LF] @ replicate 4096 0x61,
             js ''[Part 2/2]'' @ [LF, LF] @ replicate 1 0x61]
   \<and> length (js ''[Part 1/2]'' @ [LF, LF] @ replicate 4096 (0x61 :: jschar)) = 4108
   \<and> WHATSAPP_MESSAGE_MAX_LENGTH = 4096"
  using indicators_plain_4097 by (simp add: js_def WHATSAPP_MESSAGE_MAX_LENGTH_def)

text \<open>
  Claim C2 at two inputs. For 4096 letters and a space, one chunk is returned and its
  header says \<open>[1/2]\<close>. For 4096 letters followed by \<open>[7/9]\<close>, two line feeds and \<open>hello\<close>, the
  bodies of the two chunks are the letters and \<open>hello\<close>: the text \<open>[7/9]\<close> is gone.
\<close>

theorem header_count_and_text_lost:
  "splitMessageWithIndicators (replicate 4096 0x61 @ [0x20])
     = Some [js ''[1/2]'' @ [LF, LF] @ replicate 4096 0x61]
   \<and> splitMessageWithIndicators (replicate 4096 0x61 @ js ''[7/9]'' @ [LF, LF] @ js ''hello'')
     = Some [js ''[Part 1/2]'' @ [LF, LF] @ replicate 4096 0x61,
             js ''[Part 2/2]'' @ [LF, LF] @ js ''hello'']"
  using split_trailing_space lost_indicator_text by simp

section \<open>Properties of the services\<close>

subsection \<open>The retry predicate of the outbound send\<close>

text \<open>
  Claim C8: the \<open>shouldRetry\<close> predicate that \<open>sendTextMessage\<close> hands to the wrapper returns
  true exactly for a response with status 429 or 500 to 599, or for an error named
  \<open>AbortError\<close> or with code \<open>ECONNREFUSED\<close> or \<open>ETIMEDOUT\<close>. For a response with a 4xx
  status other than 429 it returns false, and when the wrapper hands that response back,
  \<open>sendTextMessage\<close> throws the API error at once, after that single call.
\<close>

theorem whatsappShouldRetry_exact:
  "shouldRetry (whatsappOptions env) = Some whatsappShouldRetry
   \<and> (whatsappShouldRetry None (Some r)
        \<longleftrightarrow> status r = 429 \<or> (500 \<le> status r \<and> status r \<le> 599))
   \<and> (whatsappShouldRetry (Some e) resp
        \<longleftrightarrow> errorName e = js ''AbortError'' \<or> errorCode e = Some (js ''ECONNREFUSED'')
            \<or> errorCode e = Some (js ''ETIMEDOUT''))
   \<and> \<not> whatsappShouldRetry None None
   \<and> (400 \<le> status r \<and> status r \<le> 499 \<and> status r \<noteq> 429
        \<longrightarrow> \<not> whatsappShouldRetry None (Some r)
            \<and> (\<not> unset (WHATSAPP_TOKEN env) \<and> \<not> unset (PHONE_NUMBER_ID env)
                \<and> validateMessageLength message = Inr ()
                \<and> fetchWithRetry (WhatsAppMessage (WHATSAPP_API_URL env)
                      (case WHATSAPP_TOKEN env of None \<Rightarrow> [] | Some t \<Rightarrow> t) to message)
                    (whatsappOptions env) events = Resolved r
                \<longrightarrow> sendTextMessage fetchWithRetry env to message events
                      = (Inl (WhatsAppApiError (status r)),
                         events @ [Fetch (WhatsAppMessage (WHATSAPP_API_URL env)
                             (case WHATSAPP_TOKEN env of None \<Rightarrow> [] | Some t \<Rightarrow> t) to message)
                           (Resolved r)])))"
  by (auto simp: whatsappShouldRetry_def whatsappOptions_def sendTextMessage_def Let_def ok_def)

theorem whatsappShouldRetry_exact_witness:
  "\<not> whatsappShouldRetry None (Some \<lparr> status = 404, jsonBody = Some JNull \<rparr>)
   \<and> fst (sendTextMessage (answering 404) defaultEnv (js ''4915'') (JSString (js ''Hi'')) [])
     = Inl (WhatsAppApiError 404)"
  using whatsappShouldRetry_exact [of defaultEnv "\<lparr> status = 404, jsonBody = Some JNull \<rparr>"
          "\<lparr> errorName = js ''AbortError'', errorCode = None \<rparr>" None
          "JSString (js ''Hi'')" "answering 404" "js ''4915''" "[]"]
  by (simp add: defaultEnv_def answering_def unset_def validateMessageLength_def js_def
      WHATSAPP_MESSAGE_MAX_LENGTH_def)

subsection \<open>The breaker in front of the backend\<close>









subsection \<open>Attempts of the resilient call wrapper\<close>

lemma retryLoop_always_failing:
  assumes fails: "\<And>k. k \<le> policyMaxRetries policy \<Longrightarrow>
      isFailure (settle policy (operation k)) \<and> consultShouldRetry policy (settle policy (operation k))"
  shows "attempt \<le> policyMaxRetries policy \<Longrightarrow>
    retryLoop operation policy attempt trace =
    (settle policy (operation (policyMaxRetries policy)),
     trace @ concat (map (\<lambda>k. [Invoked k, Waited (policyRetryDelayMs policy)])
                      [attempt ..< policyMaxRetries policy])
       @ [Invoked (policyMaxRetries policy)])"
proof (induction "policyMaxRetries policy - attempt" arbitrary: attempt trace)
  case 0
  then have "attempt = policyMaxRetries policy" by simp
  then show ?case by (subst retryLoop.simps) simp
next
  case (Suc d)
  then have lt: "attempt < policyMaxRetries policy" by simp
  have step: "retryLoop operation policy attempt trace =
      retryLoop operation policy (attempt + 1)
        (trace @ [Invoked attempt, Waited (policyRetryDelayMs policy)])"
    using lt fails [of attempt] by (subst retryLoop.simps) simp
  have "d = policyMaxRetries policy - (attempt + 1)" using Suc.hyps(2) by simp
  moreover have "attempt + 1 \<le> policyMaxRetries policy" using lt by simp
  ultimately have "retryLoop operation policy (attempt + 1)
        (trace @ [Invoked attempt, Waited (policyRetryDelayMs policy)]) =
      (settle policy (operation (policyMaxRetries policy)),
       (trace @ [Invoked attempt, Waited (policyRetryDelayMs policy)])
        @ concat (map (\<lambda>k. [Invoked k, Waited (policyRetryDelayMs policy)])
                   [attempt + 1 ..< policyMaxRetries policy])
        @ [Invoked (policyMaxRetries policy)])"
    by (rule Suc.hyps(1))
  then show ?case using step lt by (simp add: upt_conv_Cons)
qed

lemma retryLoop_not_retried:
  "\<not> consultShouldRetry policy (settle policy (operation attempt)) \<Longrightarrow>
   retryLoop operation policy attempt trace
   = (settle policy (operation attempt), trace @ [Invoked attempt])"
  by (subst retryLoop.simps) simp

lemma invocations_pairs:
  "invocations (concat (map (\<lambda>k. [Invoked k, Waited d]) ks)) = length ks"
  by (induction ks) (simp_all add: invocations_def)

lemma waits_pairs:
  "waits (concat (map (\<lambda>k. [Invoked k, Waited d]) ks)) = length ks"
  by (induction ks) (simp_all add: waits_def)

lemma invocations_append: "invocations (xs @ ys) = invocations xs + invocations ys"
  by (simp add: invocations_def)

lemma waits_append: "waits (xs @ ys) = waits xs + waits ys"
  by (simp add: waits_def)

text \<open>
  Claim C9, as amended: an operation every attempt of which fails with a failure that the
  policy's \<open>shouldRetry\<close> accepts is invoked exactly \<open>maxRetries + 1\<close> times; the wrapper waits
  \<open>maxRetries\<close> times, never after the final attempt (the last thing it does is the final
  invocation), and the result is the outcome of that attempt.
\<close>

theorem executeWithRetry_always_failing:
  assumes "\<forall>k \<le> policyMaxRetries policy.
      isFailure (settle policy (operation k)) \<and> consultShouldRetry policy (settle policy (operation k))"
  shows "invocations (snd (executeWithRetry operation policy)) = policyMaxRetries policy + 1
    \<and> waits (snd (executeWithRetry operation policy)) = policyMaxRetries policy
    \<and> last (snd (executeWithRetry operation policy)) = Invoked (policyMaxRetries policy)
    \<and> fst (executeWithRetry operation policy) = settle policy (operation (policyMaxRetries policy))"
proof -
  have "executeWithRetry operation policy =
    (settle policy (operation (policyMaxRetries policy)),
     [] @ concat (map (\<lambda>k. [Invoked k, Waited (policyRetryDelayMs policy)])
                   [0 ..< policyMaxRetries policy])
       @ [Invoked (policyMaxRetries policy)])"
    unfolding executeWithRetry_def
    by (rule retryLoop_always_failing) (use assms in auto)
  then show ?thesis
    by (simp add: invocations_append waits_append invocations_pairs waits_pairs)
       (simp add: invocations_def waits_def)
qed

theorem executeWithRetry_always_failing_witness:
  "invocations (snd (executeWithRetry (\<lambda>k. (10, Resolved \<lparr> status = 503, jsonBody = None \<rparr>))
                       sendPolicy)) = 3
   \<and> waits (snd (executeWithRetry (\<lambda>k. (10, Resolved \<lparr> status = 503, jsonBody = None \<rparr>))
                   sendPolicy)) = 2"
  using executeWithRetry_always_failing
    [of sendPolicy "\<lambda>k. (10, Resolved \<lparr> status = 503, jsonBody = None \<rparr>)"]
  by (simp add: sendPolicy_def settle_def isFailure_def ok_def consultShouldRetry_def
      whatsappShouldRetry_def)

text \<open>
  Claim C9 as stated fails for the policy of the outbound send: an operation that always
  fails with status 400 is invoked once, not \<open>maxRetries + 1 = 3\<close> times, because
  \<open>shouldRetry\<close> refuses the failure.
\<close>

theorem executeWithRetry_not_retried_counterexample:
  "isFailure (settle sendPolicy (10, Resolved \<lparr> status = 400, jsonBody = None \<rparr>))
   \<and> invocations (snd (executeWithRetry (\<lambda>k. (10, Resolved \<lparr> status = 400, jsonBody = None \<rparr>))
                         sendPolicy)) = 1
   \<and> policyMaxRetries sendPolicy + 1 = 3"
  by (simp add: executeWithRetry_def retryLoop_not_retried sendPolicy_def settle_def
      isFailure_def ok_def consultShouldRetry_def whatsappShouldRetry_def invocations_def)

subsection \<open>Sending the chunks\<close>

lemma sendTextMessage_string:
  assumes "sendTextMessage fetchWithRetry env to (JSString c) events = (res, events')"
  shows "(events' = events \<and> (\<exists>e. res = Inl e))
       \<or> (\<exists>r. events' = events @ [Fetch (chunkRequest env to c) r] \<and> accepted c
              \<and> ((\<not> succeeded r \<and> (\<exists>e. res = Inl e)) \<or> (succeeded r \<and> res = Inr ())))"
  using assms
  by (auto simp: sendTextMessage_def validateMessageLength_def Let_def chunkRequest_def
        succeeded_def accepted_def
      split: if_splits fetch_result.splits option.splits)

lemma sendChunks_trace:
  "i < length chunks \<Longrightarrow> sendChunks fetchWithRetry env to chunks i events = (res, events') \<Longrightarrow>
   \<exists>k rs tail. i \<le> k \<and> k < length chunks \<and> length rs = k - i \<and> (\<forall>r \<in> set rs. succeeded r)
     \<and> (\<forall>c \<in> set (take (k - i) (drop i chunks)). accepted c)
     \<and> events' = events @ delivered env to (zip (take (k - i) (drop i chunks)) rs) @ tail
     \<and> ((tail = [] \<and> (\<exists>e. res = Inl e))
        \<or> (\<exists>r. tail = [Fetch (chunkRequest env to (chunks ! k)) r] \<and> accepted (chunks ! k)
               \<and> ((\<not> succeeded r \<and> (\<exists>e. res = Inl e))
                  \<or> (succeeded r \<and> Suc k = length chunks \<and> res = Inr ()))))"
proof (induction "length chunks - i" arbitrary: i events)
  case 0
  then show ?case by simp
next
  case (Suc d)
  obtain res1 ev1 where s1: "sendTextMessage fetchWithRetry env to (JSString (chunks ! i)) events = (res1, ev1)"
    by (cases "sendTextMessage fetchWithRetry env to (JSString (chunks ! i)) events")
  note cases1 = sendTextMessage_string [OF s1]
  have unfold: "sendChunks fetchWithRetry env to chunks i events =
      (case res1 of Inl e \<Rightarrow> (Inl e, ev1)
       | Inr u \<Rightarrow> sendChunks fetchWithRetry env to chunks (i + 1)
           (if i < length chunks - 1 then ev1 @ [Sleep DELAY_BETWEEN_CHUNKS_MS] else ev1))"
    using Suc.prems(1) s1 by (subst sendChunks.simps) (simp split: sum.splits)
  show ?case
  proof (cases res1)
    case (Inl e)
    then have r: "res = Inl e" "events' = ev1" using unfold Suc.prems(2) by simp_all
    from cases1 Inl consider
        (refused) "ev1 = events"
      | (failed) r0 where "ev1 = events @ [Fetch (chunkRequest env to (chunks ! i)) r0]"
          "accepted (chunks ! i)" "\<not> succeeded r0"
      by auto
    then show ?thesis
    proof cases
      case refused
      show ?thesis
        apply (rule exI [of _ i], rule exI [of _ "[]"], rule exI [of _ "[]"])
        using refused r Suc.prems(1) by (simp add: delivered_def)
    next
      case failed
      show ?thesis
        apply (rule exI [of _ i], rule exI [of _ "[]"],
               rule exI [of _ "[Fetch (chunkRequest env to (chunks ! i)) r0]"])
        using failed r Suc.prems(1) by (simp add: delivered_def)
    qed
  next
    case (Inr u)
    with cases1 obtain r0 where ev1: "ev1 = events @ [Fetch (chunkRequest env to (chunks ! i)) r0]"
      and acc: "accepted (chunks ! i)" and ok0: "succeeded r0"
      by auto
    show ?thesis
    proof (cases "Suc i = length chunks")
      case True
      then have "sendChunks fetchWithRetry env to chunks (i + 1) ev1 = (Inr (), ev1)"
        by (subst sendChunks.simps) simp
      moreover have "\<not> i < length chunks - 1" using True by simp
      ultimately have "sendChunks fetchWithRetry env to chunks i events = (Inr (), ev1)"
        using unfold Inr by simp
      then have r: "res = Inr ()" "events' = ev1"
        using Suc.prems(2) by simp_all
      show ?thesis
        apply (rule exI [of _ i], rule exI [of _ "[]"],
               rule exI [of _ "[Fetch (chunkRequest env to (chunks ! i)) r0]"])
        using r ev1 acc ok0 True by (simp add: delivered_def)
    next
      case False
      then have lt: "Suc i < length chunks" using Suc.prems(1) by simp
      then have "i < length chunks - 1" by simp
      then have rec: "sendChunks fetchWithRetry env to chunks (Suc i) (ev1 @ [Sleep DELAY_BETWEEN_CHUNKS_MS])
                      = (res, events')"
        using unfold Inr Suc.prems(2) by simp
      have d: "d = length chunks - Suc i" using Suc.hyps(2) by simp
      from Suc.hyps(1) [OF d lt rec]
      obtain k rs tail where k: "Suc i \<le> k" "k < length chunks" "length rs = k - Suc i"
        and oks: "\<forall>r \<in> set rs. succeeded r"
        and accs: "\<forall>c \<in> set (take (k - Suc i) (drop (Suc i) chunks)). accepted c"
        and ev: "events' = (ev1 @ [Sleep DELAY_BETWEEN_CHUNKS_MS])
                   @ delivered env to (zip (take (k - Suc i) (drop (Suc i) chunks)) rs) @ tail"
        and fin: "(tail = [] \<and> (\<exists>e. res = Inl e))
        \<or> (\<exists>r. tail = [Fetch (chunkRequest env to (chunks ! k)) r] \<and> accepted (chunks ! k)
               \<and> ((\<not> succeeded r \<and> (\<exists>e. res = Inl e))
                  \<or> (succeeded r \<and> Suc k = length chunks \<and> res = Inr ())))"
        by blast
      have ki: "k - i = Suc (k - Suc i)" using k(1) by simp
      have dr: "drop i chunks = chunks ! i # drop (Suc i) chunks"
        using Suc.prems(1) by (simp add: Cons_nth_drop_Suc)
      have tk: "take (k - i) (drop i chunks) = chunks ! i # take (k - Suc i) (drop (Suc i) chunks)"
        by (simp add: ki dr)
      have del: "delivered env to (zip (take (k - i) (drop i chunks)) (r0 # rs))
          = [Fetch (chunkRequest env to (chunks ! i)) r0, Sleep DELAY_BETWEEN_CHUNKS_MS]
            @ delivered env to (zip (take (k - Suc i) (drop (Suc i) chunks)) rs)"
        by (simp add: tk delivered_def)
      show ?thesis
        apply (rule exI [of _ k], rule exI [of _ "r0 # rs"], rule exI [of _ tail])
        using k oks accs fin ok0 acc ev ev1 del tk by (simp add: ki)
    qed
  qed
qed



lemma delivered_events:
  "ev \<in> set (delivered env to (zip cs rs)) \<Longrightarrow>
   ev = Sleep DELAY_BETWEEN_CHUNKS_MS \<or> (\<exists>c r. c \<in> set cs \<and> ev = Fetch (chunkRequest env to c) r)"
  by (auto simp: delivered_def dest: set_zip_leftD)

lemma sendTextMessageWithSplitting_trace:
  assumes "ENABLE_MESSAGE_SPLITTING env" and "WHATSAPP_MESSAGE_MAX_LENGTH < length message"
  shows "\<exists>chunks res events' k rs tail.
      splitMessageWithIndicators message = Some chunks
    \<and> sendTextMessageWithSplitting fetchWithRetry env to message events = Some (res, events')
    \<and> k < length chunks \<and> length rs = k \<and> (\<forall>r \<in> set rs. succeeded r)
    \<and> (\<forall>c \<in> set (take k chunks). accepted c)
    \<and> events' = events @ delivered env to (zip (take k chunks) rs) @ tail
    \<and> ((tail = [] \<and> (\<exists>e. res = Inl e))
       \<or> (\<exists>r. tail = [Fetch (chunkRequest env to (chunks ! k)) r] \<and> accepted (chunks ! k)
              \<and> ((\<not> succeeded r \<and> (\<exists>e. res = Inl e))
                 \<or> (succeeded r \<and> Suc k = length chunks \<and> res = Inr ()))))"
proof -
  have "message \<noteq> []" using assms(2) by auto
  then obtain chunks where split: "splitMessageWithIndicators message = Some chunks"
    and ne: "chunks \<noteq> []"
    using splitMessageWithIndicators_returns [of message] by auto
  then have pos: "0 < length chunks" by simp
  show ?thesis
  proof (cases "length chunks = 1")
    case True
    obtain res events' where
      s1: "sendTextMessage fetchWithRetry env to (JSString (chunks ! 0)) events = (res, events')"
      by (cases "sendTextMessage fetchWithRetry env to (JSString (chunks ! 0)) events")
    have run: "sendTextMessageWithSplitting fetchWithRetry env to message events = Some (res, events')"
      using assms split True s1 by (simp add: sendTextMessageWithSplitting_def)
    from sendTextMessage_string [OF s1] show ?thesis
    proof
      assume "events' = events \<and> (\<exists>e. res = Inl e)"
      then show ?thesis
        using split run True
        by (intro exI [of _ chunks] exI [of _ res] exI [of _ events'] exI [of _ 0]
            exI [of _ "[]"]) (simp add: delivered_def)
    next
      assume "\<exists>r. events' = events @ [Fetch (chunkRequest env to (chunks ! 0)) r] \<and> accepted (chunks ! 0)
              \<and> ((\<not> succeeded r \<and> (\<exists>e. res = Inl e)) \<or> (succeeded r \<and> res = Inr ()))"
      then obtain r where "events' = events @ [Fetch (chunkRequest env to (chunks ! 0)) r]"
        "accepted (chunks ! 0)"
        "(\<not> succeeded r \<and> (\<exists>e. res = Inl e)) \<or> (succeeded r \<and> res = Inr ())"
        by blast
      then show ?thesis
        using split run True
        by (intro exI [of _ chunks] exI [of _ res] exI [of _ events'] exI [of _ 0]
            exI [of _ "[]"] exI [of _ "[Fetch (chunkRequest env to (chunks ! 0)) r]"])
           (simp add: delivered_def)
    qed
  next
    case False
    obtain res events' where
      s1: "sendChunks fetchWithRetry env to chunks 0 events = (res, events')"
      by (cases "sendChunks fetchWithRetry env to chunks 0 events")
    have run: "sendTextMessageWithSplitting fetchWithRetry env to message events = Some (res, events')"
      using assms split False s1 by (simp add: sendTextMessageWithSplitting_def)
    from sendChunks_trace [OF pos s1, simplified] obtain k rs tail where
      "k < length chunks" "length rs = k" "\<forall>r \<in> set rs. succeeded r"
      "\<forall>c \<in> set (take k chunks). accepted c"
      "events' = events @ delivered env to (zip (take k chunks) rs) @ tail"
      "(tail = [] \<and> (\<exists>e. res = Inl e))
       \<or> (\<exists>r. tail = [Fetch (chunkRequest env to (chunks ! k)) r] \<and> accepted (chunks ! k)
              \<and> ((\<not> succeeded r \<and> (\<exists>e. res = Inl e))
                 \<or> (succeeded r \<and> Suc k = length chunks \<and> res = Inr ())))"
      by blast
    then show ?thesis using split run
      by (intro exI [of _ chunks] exI [of _ res] exI [of _ events'] exI [of _ k]
            exI [of _ rs] exI [of _ tail]) simp
  qed
qed

lemma sendChunks_two_accepted:
  assumes "sendTextMessage fetchWithRetry env to (JSString c1) events = (Inr (), events1)"
    and "sendTextMessage fetchWithRetry env to (JSString c2)
           (events1 @ [Sleep DELAY_BETWEEN_CHUNKS_MS]) = (Inr (), events2)"
  shows "sendChunks fetchWithRetry env to [c1, c2] 0 events = (Inr (), events2)"
proof -
  have "sendChunks fetchWithRetry env to [c1, c2] 2 events2 = (Inr (), events2)"
    by (subst sendChunks.simps) simp
  then have "sendChunks fetchWithRetry env to [c1, c2] 1 (events1 @ [Sleep DELAY_BETWEEN_CHUNKS_MS])
             = (Inr (), events2)"
    using assms(2) by (subst sendChunks.simps) (simp add: numeral_2_eq_2)
  then show ?thesis
    using assms(1) by (subst sendChunks.simps) simp
qed

lemma sendTextMessage_answered:
  assumes "c \<noteq> []" and "length c \<le> 4096"
  shows "sendTextMessage (answering 200) defaultEnv to (JSString c) events
         = (Inr (), events @ [Fetch (chunkRequest defaultEnv to c)
                                 (Resolved \<lparr> status = 200, jsonBody = Some JNull \<rparr>)])"
  using assms
  by (simp add: sendTextMessage_def validateMessageLength_def WHATSAPP_MESSAGE_MAX_LENGTH_def
      defaultEnv_def unset_def js_def answering_def ok_def chunkRequest_def Let_def)

lemma twoSentences_sent:
  "sendTextMessageWithSplitting (answering 200) defaultEnv to twoSentences []
   = Some (Inr (),
       [Fetch (chunkRequest defaultEnv to (js ''[Part 1/2]'' @ [LF, LF] @ replicate 4000 0x61 @ [0x2E]))
          (Resolved \<lparr> status = 200, jsonBody = Some JNull \<rparr>),
        Sleep 500,
        Fetch (chunkRequest defaultEnv to (js ''[Part 2/2]'' @ [LF, LF] @ replicate 1000 0x62))
          (Resolved \<lparr> status = 200, jsonBody = Some JNull \<rparr>)])"
proof -
  let ?c1 = "js ''[Part 1/2]'' @ [LF, LF] @ replicate 4000 0x61 @ [0x2E]"
  let ?c2 = "js ''[Part 2/2]'' @ [LF, LF] @ replicate 1000 (0x62 :: jschar)"
  let ?ok = "Resolved \<lparr> status = 200, jsonBody = Some JNull \<rparr>"
  have s1: "sendTextMessage (answering 200) defaultEnv to (JSString ?c1) []
      = (Inr (), [] @ [Fetch (chunkRequest defaultEnv to ?c1) ?ok])"
    by (rule sendTextMessage_answered) (simp_all add: js_def)
  have s2: "sendTextMessage (answering 200) defaultEnv to (JSString ?c2)
        (([] @ [Fetch (chunkRequest defaultEnv to ?c1) ?ok]) @ [Sleep DELAY_BETWEEN_CHUNKS_MS])
      = (Inr (), (([] @ [Fetch (chunkRequest defaultEnv to ?c1) ?ok]) @ [Sleep DELAY_BETWEEN_CHUNKS_MS])
                 @ [Fetch (chunkRequest defaultEnv to ?c2) ?ok])"
    by (rule sendTextMessage_answered) (simp_all add: js_def)
  note run = sendChunks_two_accepted [OF s1 s2]
  have "ENABLE_MESSAGE_SPLITTING defaultEnv" by (simp add: defaultEnv_def)
  moreover have "WHATSAPP_MESSAGE_MAX_LENGTH < length twoSentences"
    by (simp add: twoSentences_def WHATSAPP_MESSAGE_MAX_LENGTH_def)
  ultimately show ?thesis
    unfolding sendTextMessageWithSplitting_def split_twoSentences
    using run by (simp add: DELAY_BETWEEN_CHUNKS_MS_def)
qed

lemma sendTextMessage_exact:
  "sendTextMessage fetchWithRetry env to (JSString c) events =
     (case refusal env c of
        Some e \<Rightarrow> (Inl e, events)
      | None \<Rightarrow>
          (if succeeded (fetchWithRetry (chunkRequest env to c) (whatsappOptions env) events)
           then Inr ()
           else Inl (failureOf (fetchWithRetry (chunkRequest env to c) (whatsappOptions env) events)),
           events @ [Fetch (chunkRequest env to c)
                       (fetchWithRetry (chunkRequest env to c) (whatsappOptions env) events)]))"
  by (auto simp: sendTextMessage_def validateMessageLength_def refusal_def failureOf_def
        succeeded_def chunkRequest_def Let_def
      split: fetch_result.splits option.splits)

lemma refusal_accepted: "refusal env c = None \<Longrightarrow> accepted c"
  by (auto simp: refusal_def accepted_def split: if_splits)

lemma sendChunks_refused:
  "i < length chunks \<Longrightarrow> refusal env (chunks ! i) = Some e \<Longrightarrow>
   sendChunks fetchWithRetry env to chunks i events = (Inl e, events)"
  by (subst sendChunks.simps) (simp add: sendTextMessage_exact)

lemma sendChunks_failed:
  "i < length chunks \<Longrightarrow> refusal env (chunks ! i) = None \<Longrightarrow>
   \<not> succeeded (fetchWithRetry (chunkRequest env to (chunks ! i)) (whatsappOptions env) events) \<Longrightarrow>
   sendChunks fetchWithRetry env to chunks i events
   = (Inl (failureOf (fetchWithRetry (chunkRequest env to (chunks ! i)) (whatsappOptions env) events)),
      events @ [Fetch (chunkRequest env to (chunks ! i))
                  (fetchWithRetry (chunkRequest env to (chunks ! i)) (whatsappOptions env) events)])"
  by (subst sendChunks.simps) (simp add: sendTextMessage_exact)

lemma sendChunks_final:
  "Suc i = length chunks \<Longrightarrow> refusal env (chunks ! i) = None \<Longrightarrow>
   succeeded (fetchWithRetry (chunkRequest env to (chunks ! i)) (whatsappOptions env) events) \<Longrightarrow>
   sendChunks fetchWithRetry env to chunks i events
   = (Inr (),
      events @ [Fetch (chunkRequest env to (chunks ! i))
                  (fetchWithRetry (chunkRequest env to (chunks ! i)) (whatsappOptions env) events)])"
proof -
  assume a: "Suc i = length chunks" "refusal env (chunks ! i) = None"
    "succeeded (fetchWithRetry (chunkRequest env to (chunks ! i)) (whatsappOptions env) events)"
  have stop: "\<And>ev. sendChunks fetchWithRetry env to chunks (i + 1) ev = (Inr (), ev)"
    using a(1) by (subst sendChunks.simps) simp
  have "i < length chunks" "\<not> i < length chunks - 1" using a(1) by simp_all
  then show ?thesis
    using a(2,3) stop by (subst sendChunks.simps) (simp add: sendTextMessage_exact)
qed

lemma sendChunks_next:
  "Suc i < length chunks \<Longrightarrow> refusal env (chunks ! i) = None \<Longrightarrow>
   succeeded (fetchWithRetry (chunkRequest env to (chunks ! i)) (whatsappOptions env) events) \<Longrightarrow>
   sendChunks fetchWithRetry env to chunks i events
   = sendChunks fetchWithRetry env to chunks (Suc i)
       (events @ [Fetch (chunkRequest env to (chunks ! i))
                    (fetchWithRetry (chunkRequest env to (chunks ! i)) (whatsappOptions env) events),
                  Sleep DELAY_BETWEEN_CHUNKS_MS])"
  by (subst sendChunks.simps) (auto simp: sendTextMessage_exact)

text \<open>
  The run of the loop from index \<open>i\<close>: \<open>rs\<close> are the results of the sends that succeeded
  before it stopped at chunk \<open>k\<close>.
\<close>

lemma sendChunks_run:
  "i < length chunks \<Longrightarrow> sendChunks fetchWithRetry env to chunks i events = (res, events') \<Longrightarrow>
   \<exists>k rs tail. i \<le> k \<and> k < length chunks \<and> length rs = k - i
     \<and> (\<forall>j < k - i.
           refusal env (chunks ! (i + j)) = None \<and> succeeded (rs ! j)
           \<and> rs ! j = fetchWithRetry (chunkRequest env to (chunks ! (i + j))) (whatsappOptions env)
                        (events @ delivered env to (zip (take j (drop i chunks)) (take j rs))))
     \<and> events' = events @ delivered env to (zip (take (k - i) (drop i chunks)) rs) @ tail
     \<and> ((tail = [] \<and> (\<exists>e. refusal env (chunks ! k) = Some e \<and> res = Inl e))
        \<or> (\<exists>r. tail = [Fetch (chunkRequest env to (chunks ! k)) r]
               \<and> refusal env (chunks ! k) = None
               \<and> r = fetchWithRetry (chunkRequest env to (chunks ! k)) (whatsappOptions env)
                       (events @ delivered env to (zip (take (k - i) (drop i chunks)) rs))
               \<and> ((\<not> succeeded r \<and> res = Inl (failureOf r))
                  \<or> (succeeded r \<and> Suc k = length chunks \<and> res = Inr ()))))"
proof (induction "length chunks - i" arbitrary: i events)
  case 0
  then show ?case by simp
next
  case (Suc d)
  let ?req = "chunkRequest env to (chunks ! i)"
  let ?r0 = "fetchWithRetry ?req (whatsappOptions env) events"
  show ?case
  proof (cases "refusal env (chunks ! i)")
    case (Some e)
    then have "res = Inl e" "events' = events"
      using sendChunks_refused [OF Suc.prems(1) Some] Suc.prems(2) by simp_all
    then show ?thesis
      using Some Suc.prems(1)
      by (intro exI [of _ i] exI [of _ "[]"] exI [of _ "[]"]) (simp add: delivered_def)
  next
    case None
    show ?thesis
    proof (cases "succeeded ?r0")
      case False
      then have "res = Inl (failureOf ?r0)" "events' = events @ [Fetch ?req ?r0]"
        using sendChunks_failed [where fetchWithRetry = fetchWithRetry and events = events, OF Suc.prems(1) None False] Suc.prems(2) by simp_all
      then show ?thesis
        using None False Suc.prems(1)
        by (intro exI [of _ i] exI [of _ "[]"] exI [of _ "[Fetch ?req ?r0]"]) (simp add: delivered_def)
    next
      case True
      show ?thesis
      proof (cases "Suc i = length chunks")
        case last: True
        have "res = Inr ()" "events' = events @ [Fetch ?req ?r0]"
          using sendChunks_final [where fetchWithRetry = fetchWithRetry and events = events, OF last None True] Suc.prems(2) by simp_all
        then show ?thesis
          using None True last Suc.prems(1)
          by (intro exI [of _ i] exI [of _ "[]"] exI [of _ "[Fetch ?req ?r0]"]) (simp add: delivered_def)
      next
        case False
        then have lt: "Suc i < length chunks" using Suc.prems(1) by simp
        let ?ev1 = "events @ [Fetch ?req ?r0, Sleep DELAY_BETWEEN_CHUNKS_MS]"
        have rec: "sendChunks fetchWithRetry env to chunks (Suc i) ?ev1 = (res, events')"
          using sendChunks_next [where fetchWithRetry = fetchWithRetry and events = events, OF lt None True] Suc.prems(2) by simp
        have d: "d = length chunks - Suc i" using Suc.hyps(2) by simp
        from Suc.hyps(1) [OF d lt rec]
        obtain k rs tail where k: "Suc i \<le> k" "k < length chunks" "length rs = k - Suc i"
          and each: "\<forall>j < k - Suc i.
             refusal env (chunks ! (Suc i + j)) = None \<and> succeeded (rs ! j)
             \<and> rs ! j = fetchWithRetry (chunkRequest env to (chunks ! (Suc i + j))) (whatsappOptions env)
                          (?ev1 @ delivered env to (zip (take j (drop (Suc i) chunks)) (take j rs)))"
          and ev: "events' = ?ev1 @ delivered env to (zip (take (k - Suc i) (drop (Suc i) chunks)) rs) @ tail"
          and fin: "(tail = [] \<and> (\<exists>e. refusal env (chunks ! k) = Some e \<and> res = Inl e))
            \<or> (\<exists>r. tail = [Fetch (chunkRequest env to (chunks ! k)) r]
               \<and> refusal env (chunks ! k) = None
               \<and> r = fetchWithRetry (chunkRequest env to (chunks ! k)) (whatsappOptions env)
                       (?ev1 @ delivered env to (zip (take (k - Suc i) (drop (Suc i) chunks)) rs))
               \<and> ((\<not> succeeded r \<and> res = Inl (failureOf r))
                  \<or> (succeeded r \<and> Suc k = length chunks \<and> res = Inr ())))"
          by blast
        have ki: "k - i = Suc (k - Suc i)" using k(1) by simp
        have dr: "drop i chunks = chunks ! i # drop (Suc i) chunks"
          using Suc.prems(1) by (simp add: Cons_nth_drop_Suc)
        have pre: "\<And>n. events @ delivered env to (zip (take (Suc n) (drop i chunks)) (take (Suc n) (?r0 # rs)))
            = ?ev1 @ delivered env to (zip (take n (drop (Suc i) chunks)) (take n rs))"
          by (simp add: dr delivered_def)
        have pre_all: "events @ delivered env to (zip (take (k - i) (drop i chunks)) (?r0 # rs))
            = ?ev1 @ delivered env to (zip (take (k - Suc i) (drop (Suc i) chunks)) rs)"
          using pre [of "k - Suc i"] k(3) by (simp add: ki)
        have each': "\<forall>j < k - i.
             refusal env (chunks ! (i + j)) = None \<and> succeeded ((?r0 # rs) ! j)
             \<and> (?r0 # rs) ! j = fetchWithRetry (chunkRequest env to (chunks ! (i + j))) (whatsappOptions env)
                          (events @ delivered env to (zip (take j (drop i chunks)) (take j (?r0 # rs))))"
        proof (intro allI impI)
          fix j assume j: "j < k - i"
          show "refusal env (chunks ! (i + j)) = None \<and> succeeded ((?r0 # rs) ! j)
             \<and> (?r0 # rs) ! j = fetchWithRetry (chunkRequest env to (chunks ! (i + j))) (whatsappOptions env)
                          (events @ delivered env to (zip (take j (drop i chunks)) (take j (?r0 # rs))))"
          proof (cases j)
            case 0
            then show ?thesis using None True by (simp add: delivered_def)
          next
            case (Suc n)
            then have n: "n < k - Suc i" using j ki by simp
            from each n have
              "refusal env (chunks ! (Suc i + n)) = None" "succeeded (rs ! n)"
              "rs ! n = fetchWithRetry (chunkRequest env to (chunks ! (Suc i + n))) (whatsappOptions env)
                          (?ev1 @ delivered env to (zip (take n (drop (Suc i) chunks)) (take n rs)))"
              by blast+
            then show ?thesis unfolding Suc pre by simp
          qed
        qed
        have ev': "events' = events @ delivered env to (zip (take (k - i) (drop i chunks)) (?r0 # rs)) @ tail"
          using ev pre_all by simp
        have fin': "(tail = [] \<and> (\<exists>e. refusal env (chunks ! k) = Some e \<and> res = Inl e))
            \<or> (\<exists>r. tail = [Fetch (chunkRequest env to (chunks ! k)) r]
               \<and> refusal env (chunks ! k) = None
               \<and> r = fetchWithRetry (chunkRequest env to (chunks ! k)) (whatsappOptions env)
                       (events @ delivered env to (zip (take (k - i) (drop i chunks)) (?r0 # rs)))
               \<and> ((\<not> succeeded r \<and> res = Inl (failureOf r))
                  \<or> (succeeded r \<and> Suc k = length chunks \<and> res = Inr ())))"
          using fin unfolding pre_all .
        have len: "length (?r0 # rs) = k - i" using k(3) ki by simp
        have ik: "i \<le> k" using k(1) by simp
        show ?thesis
          using ik k(2) len each' ev' fin'
          by (intro exI [of _ k] exI [of _ "?r0 # rs"] exI [of _ tail] conjI)
      qed
    qed
  qed
qed


lemma sendChunks_run_all:
  assumes "0 < length chunks" and "sendChunks fetchWithRetry env to chunks 0 events = (res, events')"
  shows "\<exists>k rs tail. k < length chunks \<and> length rs = k
     \<and> (\<forall>j < k.
           refusal env (chunks ! j) = None \<and> succeeded (rs ! j)
           \<and> rs ! j = fetchWithRetry (chunkRequest env to (chunks ! j)) (whatsappOptions env)
                        (events @ delivered env to (zip (take j chunks) (take j rs))))
     \<and> events' = events @ delivered env to (zip (take k chunks) rs) @ tail
     \<and> ((tail = [] \<and> (\<exists>e. refusal env (chunks ! k) = Some e \<and> res = Inl e))
        \<or> (\<exists>r. tail = [Fetch (chunkRequest env to (chunks ! k)) r]
               \<and> refusal env (chunks ! k) = None
               \<and> r = fetchWithRetry (chunkRequest env to (chunks ! k)) (whatsappOptions env)
                       (events @ delivered env to (zip (take k chunks) rs))
               \<and> ((\<not> succeeded r \<and> res = Inl (failureOf r))
                  \<or> (succeeded r \<and> Suc k = length chunks \<and> res = Inr ()))))"
  using sendChunks_run [OF assms] by simp

lemma sendTextMessage_run:
  "\<exists>tail. snd (sendTextMessage fetchWithRetry env to (JSString c) events) = events @ tail
     \<and> ((tail = [] \<and> (\<exists>e. refusal env c = Some e
                          \<and> fst (sendTextMessage fetchWithRetry env to (JSString c) events) = Inl e))
        \<or> (\<exists>r. tail = [Fetch (chunkRequest env to c) r]
               \<and> refusal env c = None
               \<and> r = fetchWithRetry (chunkRequest env to c) (whatsappOptions env) events
               \<and> ((\<not> succeeded r
                      \<and> fst (sendTextMessage fetchWithRetry env to (JSString c) events)
                          = Inl (failureOf r))
                  \<or> (succeeded r
                      \<and> fst (sendTextMessage fetchWithRetry env to (JSString c) events) = Inr ()))))"
  by (cases "refusal env c") (simp_all add: sendTextMessage_exact)

text \<open>
  Claim C6: when a message longer than 4096 characters is sent with splitting enabled, the
  call returns, and its events are: the first \<open>k\<close> chunks of the split, in their order, each
  passed by the guards of \<open>sendTextMessage\<close>, sent with the outcome \<open>fetchWithRetry\<close> gave
  for it after the events before it, that outcome a success, and each followed by a delay
  of 500 ms; and then chunk \<open>k\<close>. Either the guards refuse chunk \<open>k\<close> (credentials not
  configured, or the chunk with its header empty or longer than 4096), nothing is sent
  for it and the call fails with the error of the guard; or chunk \<open>k\<close> is sent and the
  send fails, no later chunk is sent and the call fails with the error of that send; or
  the send succeeds, chunk \<open>k\<close> is the last one, nothing follows it (no delay) and the call
  succeeds.
\<close>

theorem sendTextMessageWithSplitting_sequential:
  assumes "ENABLE_MESSAGE_SPLITTING env" and "WHATSAPP_MESSAGE_MAX_LENGTH < length message"
  shows "DELAY_BETWEEN_CHUNKS_MS = 500
    \<and> (\<exists>chunks res events' k rs tail.
      splitMessageWithIndicators message = Some chunks
    \<and> sendTextMessageWithSplitting fetchWithRetry env to message events = Some (res, events')
    \<and> k < length chunks \<and> length rs = k
    \<and> (\<forall>j < k.
          refusal env (chunks ! j) = None \<and> succeeded (rs ! j)
          \<and> rs ! j = fetchWithRetry (chunkRequest env to (chunks ! j)) (whatsappOptions env)
                       (events @ delivered env to (zip (take j chunks) (take j rs))))
    \<and> events' = events @ delivered env to (zip (take k chunks) rs) @ tail
    \<and> ((tail = [] \<and> (\<exists>e. refusal env (chunks ! k) = Some e \<and> res = Inl e))
       \<or> (\<exists>r. tail = [Fetch (chunkRequest env to (chunks ! k)) r]
              \<and> refusal env (chunks ! k) = None
              \<and> r = fetchWithRetry (chunkRequest env to (chunks ! k)) (whatsappOptions env)
                      (events @ delivered env to (zip (take k chunks) rs))
              \<and> ((\<not> succeeded r \<and> res = Inl (failureOf r))
                 \<or> (succeeded r \<and> Suc k = length chunks \<and> res = Inr ())))))"
proof -
  have "message \<noteq> []" using assms(2) by auto
  then obtain chunks where split: "splitMessageWithIndicators message = Some chunks"
    and ne: "chunks \<noteq> []"
    using splitMessageWithIndicators_returns [of message] by auto
  then have pos: "0 < length chunks" by simp
  have run: "\<exists>res events' k rs tail.
      sendTextMessageWithSplitting fetchWithRetry env to message events = Some (res, events')
    \<and> k < length chunks \<and> length rs = k
    \<and> (\<forall>j < k.
          refusal env (chunks ! j) = None \<and> succeeded (rs ! j)
          \<and> rs ! j = fetchWithRetry (chunkRequest env to (chunks ! j)) (whatsappOptions env)
                       (events @ delivered env to (zip (take j chunks) (take j rs))))
    \<and> events' = events @ delivered env to (zip (take k chunks) rs) @ tail
    \<and> ((tail = [] \<and> (\<exists>e. refusal env (chunks ! k) = Some e \<and> res = Inl e))
       \<or> (\<exists>r. tail = [Fetch (chunkRequest env to (chunks ! k)) r]
              \<and> refusal env (chunks ! k) = None
              \<and> r = fetchWithRetry (chunkRequest env to (chunks ! k)) (whatsappOptions env)
                      (events @ delivered env to (zip (take k chunks) rs))
              \<and> ((\<not> succeeded r \<and> res = Inl (failureOf r))
                 \<or> (succeeded r \<and> Suc k = length chunks \<and> res = Inr ()))))"
  proof (cases "length chunks = 1")
    case True
    let ?s = "sendTextMessage fetchWithRetry env to (JSString (chunks ! 0)) events"
    have whole: "sendTextMessageWithSplitting fetchWithRetry env to message events
                 = Some (fst ?s, snd ?s)"
      using assms split True by (simp add: sendTextMessageWithSplitting_def)
    obtain tail where t: "snd ?s = events @ tail"
      "(tail = [] \<and> (\<exists>e. refusal env (chunks ! 0) = Some e \<and> fst ?s = Inl e))
        \<or> (\<exists>r. tail = [Fetch (chunkRequest env to (chunks ! 0)) r]
               \<and> refusal env (chunks ! 0) = None
               \<and> r = fetchWithRetry (chunkRequest env to (chunks ! 0)) (whatsappOptions env) events
               \<and> ((\<not> succeeded r \<and> fst ?s = Inl (failureOf r))
                  \<or> (succeeded r \<and> fst ?s = Inr ())))"
      using sendTextMessage_run [of fetchWithRetry env "to" "chunks ! 0" events] by blast
    show ?thesis
      using whole t True
      by (intro exI [of _ "fst ?s"] exI [of _ "snd ?s"] exI [of _ 0] exI [of _ "[]"]
            exI [of _ tail]) (simp add: delivered_def)
  next
    case False
    obtain res events' where
      s1: "sendChunks fetchWithRetry env to chunks 0 events = (res, events')"
      by (cases "sendChunks fetchWithRetry env to chunks 0 events")
    have whole: "sendTextMessageWithSplitting fetchWithRetry env to message events = Some (res, events')"
      using assms split False s1 by (simp add: sendTextMessageWithSplitting_def)
    from sendChunks_run_all [OF pos s1] whole show ?thesis by blast
  qed
  have "DELAY_BETWEEN_CHUNKS_MS = 500" by (simp add: DELAY_BETWEEN_CHUNKS_MS_def)
  with split run show ?thesis by blast
qed

lemma refusal_none:
  "c \<noteq> [] \<Longrightarrow> length c \<le> 4096 \<Longrightarrow> refusal defaultEnv c = None"
  by (simp add: refusal_def defaultEnv_def unset_def js_def WHATSAPP_MESSAGE_MAX_LENGTH_def)

lemma twoSentences_second_fails:
  "sendTextMessageWithSplitting answeringOnce defaultEnv to twoSentences []
   = Some (Inl (WhatsAppApiError 503),
       [Fetch (chunkRequest defaultEnv to (js ''[Part 1/2]'' @ [LF, LF] @ replicate 4000 0x61 @ [0x2E]))
          (Resolved \<lparr> status = 200, jsonBody = Some JNull \<rparr>),
        Sleep 500,
        Fetch (chunkRequest defaultEnv to (js ''[Part 2/2]'' @ [LF, LF] @ replicate 1000 0x62))
          (Resolved \<lparr> status = 503, jsonBody = None \<rparr>)])"
proof -
  let ?c1 = "js ''[Part 1/2]'' @ [LF, LF] @ replicate 4000 0x61 @ [0x2E]"
  let ?c2 = "js ''[Part 2/2]'' @ [LF, LF] @ replicate 1000 (0x62 :: jschar)"
  let ?ok = "Resolved \<lparr> status = 200, jsonBody = Some JNull \<rparr>"
  let ?ko = "Resolved \<lparr> status = 503, jsonBody = None \<rparr>"
  let ?ev1 = "[] @ [Fetch (chunkRequest defaultEnv to ([?c1, ?c2] ! 0)) ?ok, Sleep DELAY_BETWEEN_CHUNKS_MS]"
  have r1: "refusal defaultEnv ([?c1, ?c2] ! 0) = None"
    by (rule refusal_none) (simp_all add: js_def)
  have r2: "refusal defaultEnv ([?c1, ?c2] ! Suc 0) = None"
    by (rule refusal_none) (simp_all add: js_def)
  have f1: "answeringOnce (chunkRequest defaultEnv to ([?c1, ?c2] ! 0)) (whatsappOptions defaultEnv) [] = ?ok"
    by (simp add: answeringOnce_def)
  have f2: "answeringOnce (chunkRequest defaultEnv to ([?c1, ?c2] ! Suc 0)) (whatsappOptions defaultEnv) ?ev1
            = ?ko"
    by (simp add: answeringOnce_def)
  have ok1: "succeeded (answeringOnce (chunkRequest defaultEnv to ([?c1, ?c2] ! 0))
               (whatsappOptions defaultEnv) [])"
    unfolding f1 by (simp add: succeeded_def ok_def)
  have ko2: "\<not> succeeded (answeringOnce (chunkRequest defaultEnv to ([?c1, ?c2] ! Suc 0))
               (whatsappOptions defaultEnv) ?ev1)"
    unfolding f2 by (simp add: succeeded_def ok_def)
  have two: "Suc 0 < length [?c1, ?c2]" by simp
  have "sendChunks answeringOnce defaultEnv to [?c1, ?c2] 0 []
        = sendChunks answeringOnce defaultEnv to [?c1, ?c2] (Suc 0) ?ev1"
    using sendChunks_next [where fetchWithRetry = answeringOnce and events = "[]", OF two r1 ok1]
    unfolding f1 .
  also have "\<dots> = (Inl (failureOf ?ko), ?ev1 @ [Fetch (chunkRequest defaultEnv to ([?c1, ?c2] ! Suc 0)) ?ko])"
    using sendChunks_failed [where fetchWithRetry = answeringOnce and events = ?ev1, OF two r2 ko2]
    unfolding f2 .
  finally have run: "sendChunks answeringOnce defaultEnv to [?c1, ?c2] 0 []
      = (Inl (WhatsAppApiError 503),
         [Fetch (chunkRequest defaultEnv to ?c1) ?ok, Sleep 500, Fetch (chunkRequest defaultEnv to ?c2) ?ko])"
    by (simp add: failureOf_def ok_def DELAY_BETWEEN_CHUNKS_MS_def)
  have "ENABLE_MESSAGE_SPLITTING defaultEnv" by (simp add: defaultEnv_def)
  moreover have "WHATSAPP_MESSAGE_MAX_LENGTH < length twoSentences"
    by (simp add: twoSentences_def WHATSAPP_MESSAGE_MAX_LENGTH_def)
  ultimately show ?thesis
    unfolding sendTextMessageWithSplitting_def split_twoSentences
    using run by simp
qed

theorem sendTextMessageWithSplitting_sequential_witness:
  "ENABLE_MESSAGE_SPLITTING defaultEnv
   \<and> WHATSAPP_MESSAGE_MAX_LENGTH < length twoSentences
   \<and> sendTextMessageWithSplitting (answering 200) defaultEnv (js ''4915'') twoSentences []
     = Some (Inr (),
         [Fetch (chunkRequest defaultEnv (js ''4915'')
                   (js ''[Part 1/2]'' @ [LF, LF] @ replicate 4000 0x61 @ [0x2E]))
            (Resolved \<lparr> status = 200, jsonBody = Some JNull \<rparr>),
          Sleep 500,
          Fetch (chunkRequest defaultEnv (js ''4915'')
                   (js ''[Part 2/2]'' @ [LF, LF] @ replicate 1000 0x62))
            (Resolved \<lparr> status = 200, jsonBody = Some JNull \<rparr>)])
   \<and> sendTextMessageWithSplitting answeringOnce defaultEnv (js ''4915'') twoSentences []
     = Some (Inl (WhatsAppApiError 503),
         [Fetch (chunkRequest defaultEnv (js ''4915'')
                   (js ''[Part 1/2]'' @ [LF, LF] @ replicate 4000 0x61 @ [0x2E]))
            (Resolved \<lparr> status = 200, jsonBody = Some JNull \<rparr>),
          Sleep 500,
          Fetch (chunkRequest defaultEnv (js ''4915'')
                   (js ''[Part 2/2]'' @ [LF, LF] @ replicate 1000 0x62))
            (Resolved \<lparr> status = 503, jsonBody = None \<rparr>)])
   \<and> (\<exists>chunks res events' k rs tail.
      splitMessageWithIndicators twoSentences = Some chunks
    \<and> sendTextMessageWithSplitting answeringOnce defaultEnv (js ''4915'') twoSentences []
        = Some (res, events')
    \<and> k < length chunks \<and> length rs = k
    \<and> events' = [] @ delivered defaultEnv (js ''4915'') (zip (take k chunks) rs) @ tail
    \<and> ((tail = [] \<and> (\<exists>e. refusal defaultEnv (chunks ! k) = Some e \<and> res = Inl e))
       \<or> (\<exists>r. tail = [Fetch (chunkRequest defaultEnv (js ''4915'') (chunks ! k)) r]
              \<and> refusal defaultEnv (chunks ! k) = None
              \<and> r = answeringOnce (chunkRequest defaultEnv (js ''4915'') (chunks ! k))
                      (whatsappOptions defaultEnv)
                      ([] @ delivered defaultEnv (js ''4915'') (zip (take k chunks) rs)))))"
proof -
  have enabled: "ENABLE_MESSAGE_SPLITTING defaultEnv" by (simp add: defaultEnv_def)
  have long: "WHATSAPP_MESSAGE_MAX_LENGTH < length twoSentences"
    by (simp add: twoSentences_def WHATSAPP_MESSAGE_MAX_LENGTH_def)
  from sendTextMessageWithSplitting_sequential [OF enabled long, of answeringOnce "js ''4915''" "[]"]
  have "\<exists>chunks res events' k rs tail.
      splitMessageWithIndicators twoSentences = Some chunks
    \<and> sendTextMessageWithSplitting answeringOnce defaultEnv (js ''4915'') twoSentences []
        = Some (res, events')
    \<and> k < length chunks \<and> length rs = k
    \<and> events' = [] @ delivered defaultEnv (js ''4915'') (zip (take k chunks) rs) @ tail
    \<and> ((tail = [] \<and> (\<exists>e. refusal defaultEnv (chunks ! k) = Some e \<and> res = Inl e))
       \<or> (\<exists>r. tail = [Fetch (chunkRequest defaultEnv (js ''4915'') (chunks ! k)) r]
              \<and> refusal defaultEnv (chunks ! k) = None
              \<and> r = answeringOnce (chunkRequest defaultEnv (js ''4915'') (chunks ! k))
                      (whatsappOptions defaultEnv)
                      ([] @ delivered defaultEnv (js ''4915'') (zip (take k chunks) rs))))"
    by blast
  then show ?thesis
    using enabled long twoSentences_sent [of "js ''4915''"] twoSentences_second_fails [of "js ''4915''"]
    by blast
qed

lemma sendChunks_first_refused:
  "sendTextMessage fetchWithRetry env to (JSString c) events = (Inl e, events') \<Longrightarrow>
   sendChunks fetchWithRetry env to (c # cs) 0 events = (Inl e, events')"
  by (subst sendChunks.simps) simp

lemma oversize_chunk_refused:
  "sendTextMessageWithSplitting fetchWithRetry defaultEnv to (replicate 4097 0x61) events
   = Some (Inl (LengthExceedsLimit 4108), events)"
proof -
  have v: "validateMessageLength (JSString (js ''[Part 1/2]'' @ [LF, LF] @ replicate 4096 0x61))
      = Inl (LengthExceedsLimit 4108)"
    by (simp add: validateMessageLength_def WHATSAPP_MESSAGE_MAX_LENGTH_def js_def)
  have s: "sendTextMessage fetchWithRetry defaultEnv to
             (JSString (js ''[Part 1/2]'' @ [LF, LF] @ replicate 4096 0x61)) events
           = (Inl (LengthExceedsLimit 4108), events)"
    unfolding sendTextMessage_def v by (simp add: defaultEnv_def unset_def js_def)
  have "sendChunks fetchWithRetry defaultEnv to
          [js ''[Part 1/2]'' @ [LF, LF] @ replicate 4096 0x61,
           js ''[Part 2/2]'' @ [LF, LF] @ replicate 1 0x61] 0 events
        = (Inl (LengthExceedsLimit 4108), events)"
    by (rule sendChunks_first_refused [OF s])
  then show ?thesis
    unfolding sendTextMessageWithSplitting_def indicators_plain_4097
    by (simp add: defaultEnv_def WHATSAPP_MESSAGE_MAX_LENGTH_def)
qed

text \<open>
  Claim C10: \<open>sendTextMessage\<close> throws, with no request made, whenever its message is not a
  string, is the empty string or is longer than 4096 characters. In a split send the check
  is made on each chunk as it is sent, header included: every request carries a chunk of
  the split that is non-empty and at most 4096 characters long, and when some chunk
  (with its header) is longer than 4096 characters the call fails.
\<close>

theorem sendTextMessage_guard:
  "((message = JSOther \<or> message = JSString []
      \<or> (\<exists>s. message = JSString s \<and> WHATSAPP_MESSAGE_MAX_LENGTH < length s))
     \<longrightarrow> (\<exists>e. sendTextMessage fetchWithRetry env to message events = (Inl e, events)))
   \<and> (ENABLE_MESSAGE_SPLITTING env \<and> WHATSAPP_MESSAGE_MAX_LENGTH < length text
     \<longrightarrow> (\<exists>chunks res new.
            splitMessageWithIndicators text = Some chunks
          \<and> sendTextMessageWithSplitting fetchWithRetry env to text events = Some (res, events @ new)
          \<and> (\<forall>ev \<in> set new. ev = Sleep DELAY_BETWEEN_CHUNKS_MS
                \<or> (\<exists>c r. c \<in> set chunks \<and> c \<noteq> [] \<and> length c \<le> WHATSAPP_MESSAGE_MAX_LENGTH
                         \<and> ev = Fetch (chunkRequest env to c) r))
          \<and> ((\<exists>c \<in> set chunks. WHATSAPP_MESSAGE_MAX_LENGTH < length c) \<longrightarrow> (\<exists>e. res = Inl e))))"
proof (intro conjI impI)
  assume "message = JSOther \<or> message = JSString []
      \<or> (\<exists>s. message = JSString s \<and> WHATSAPP_MESSAGE_MAX_LENGTH < length s)"
  then show "\<exists>e. sendTextMessage fetchWithRetry env to message events = (Inl e, events)"
    by (auto simp: sendTextMessage_def validateMessageLength_def)
next
  assume "ENABLE_MESSAGE_SPLITTING env \<and> WHATSAPP_MESSAGE_MAX_LENGTH < length text"
  then obtain chunks res events' k rs tail where
      split: "splitMessageWithIndicators text = Some chunks"
    and run: "sendTextMessageWithSplitting fetchWithRetry env to text events = Some (res, events')"
    and k: "k < length chunks" "length rs = k"
    and accs: "\<forall>c \<in> set (take k chunks). accepted c"
    and ev: "events' = events @ delivered env to (zip (take k chunks) rs) @ tail"
    and fin: "(tail = [] \<and> (\<exists>e. res = Inl e))
       \<or> (\<exists>r. tail = [Fetch (chunkRequest env to (chunks ! k)) r] \<and> accepted (chunks ! k)
              \<and> ((\<not> succeeded r \<and> (\<exists>e. res = Inl e))
                 \<or> (succeeded r \<and> Suc k = length chunks \<and> res = Inr ())))"
    using sendTextMessageWithSplitting_trace [of env "text" fetchWithRetry "to" events] by blast
  let ?new = "delivered env to (zip (take k chunks) rs) @ tail"
  have sub: "set (take k chunks) \<subseteq> set chunks" by (rule set_take_subset)
  have nth: "chunks ! k \<in> set chunks" using k by simp
  have events_ok: "\<forall>ev \<in> set ?new. ev = Sleep DELAY_BETWEEN_CHUNKS_MS
                \<or> (\<exists>c r. c \<in> set chunks \<and> c \<noteq> [] \<and> length c \<le> WHATSAPP_MESSAGE_MAX_LENGTH
                         \<and> ev = Fetch (chunkRequest env to c) r)"
  proof
    fix ev assume "ev \<in> set ?new"
    then consider "ev \<in> set (delivered env to (zip (take k chunks) rs))" | "ev \<in> set tail" by auto
    then show "ev = Sleep DELAY_BETWEEN_CHUNKS_MS
                \<or> (\<exists>c r. c \<in> set chunks \<and> c \<noteq> [] \<and> length c \<le> WHATSAPP_MESSAGE_MAX_LENGTH
                         \<and> ev = Fetch (chunkRequest env to c) r)"
    proof cases
      case 1
      from delivered_events [OF 1] accs sub show ?thesis by (auto simp: accepted_def)
    next
      case 2
      with fin nth show ?thesis by (auto simp: accepted_def)
    qed
  qed
  have refused: "(\<exists>c \<in> set chunks. WHATSAPP_MESSAGE_MAX_LENGTH < length c) \<longrightarrow> (\<exists>e. res = Inl e)"
  proof
    assume big: "\<exists>c \<in> set chunks. WHATSAPP_MESSAGE_MAX_LENGTH < length c"
    show "\<exists>e. res = Inl e"
    proof (rule ccontr)
      assume "\<not> (\<exists>e. res = Inl e)"
      with fin have last: "Suc k = length chunks" and acc: "accepted (chunks ! k)" by auto
      then have "chunks = take k chunks @ [chunks ! k]"
        by (metis lessI take_Suc_conv_app_nth take_all order_refl)
      then have "set chunks = set (take k chunks) \<union> {chunks ! k}"
        by (metis Un_insert_right list.simps(15) set_append sup_bot.right_neutral list.set(1))
      with accs acc have "\<forall>c \<in> set chunks. accepted c" by auto
      with big show False by (auto simp: accepted_def)
    qed
  qed
  show "\<exists>chunks res new.
            splitMessageWithIndicators text = Some chunks
          \<and> sendTextMessageWithSplitting fetchWithRetry env to text events = Some (res, events @ new)
          \<and> (\<forall>ev \<in> set new. ev = Sleep DELAY_BETWEEN_CHUNKS_MS
                \<or> (\<exists>c r. c \<in> set chunks \<and> c \<noteq> [] \<and> length c \<le> WHATSAPP_MESSAGE_MAX_LENGTH
                         \<and> ev = Fetch (chunkRequest env to c) r))
          \<and> ((\<exists>c \<in> set chunks. WHATSAPP_MESSAGE_MAX_LENGTH < length c) \<longrightarrow> (\<exists>e. res = Inl e))"
    using split run ev events_ok refused
    by (intro exI [of _ chunks] exI [of _ res] exI [of _ ?new]) simp
qed


theorem sendTextMessage_guard_witness:
  "(\<exists>e. sendTextMessage backendDown defaultEnv (js ''4915'') JSOther [] = (Inl e, []))
   \<and> (\<exists>chunks res new.
        splitMessageWithIndicators (replicate 4097 0x61) = Some chunks
      \<and> sendTextMessageWithSplitting backendDown defaultEnv (js ''4915'') (replicate 4097 0x61) []
          = Some (res, [] @ new))
   \<and> sendTextMessageWithSplitting backendDown defaultEnv (js ''4915'') (replicate 4097 0x61) []
       = Some (Inl (LengthExceedsLimit 4108), [])"
proof -
  have enabled: "ENABLE_MESSAGE_SPLITTING defaultEnv
      \<and> WHATSAPP_MESSAGE_MAX_LENGTH < length (replicate 4097 (0x61 :: jschar))"
    by (simp add: defaultEnv_def WHATSAPP_MESSAGE_MAX_LENGTH_def)
  from sendTextMessage_guard [of JSOther backendDown defaultEnv "js ''4915''" "[]"
      "replicate 4097 0x61"]
  show ?thesis using enabled oversize_chunk_refused [of backendDown "js ''4915''" "[]"] by blast
qed

end
